theory Spec2Isabelle
  imports Main "HOL-Library.Char_ord" "HOL-Library.List_Lexorder"
begin

section \<open>The commit history cache (app/src/lib/dispatcher/git-store.ts)\<close>

subsection \<open>Data\<close>

text \<open>
  A value thrown by a collaborator or by the store itself. \<open>FatalError\<close> is what
  \<^verbatim>\<open>fatalError(msg)\<close> throws, \<open>TypeError\<close> what JavaScript throws on reading a
  property of \<^verbatim>\<open>undefined\<close>, \<open>GitError\<close> what the Git command collaborator throws.
\<close>

datatype error = FatalError string | TypeError | GitError string

text \<open>
  Modelled from the spec: the type \<^verbatim>\<open>Commit\<close> is declared in local-git-operations, which
  is not among these sources. A commit record has a SHA, a summary, a body and the ordered
  list of its parents' SHAs (the author identity, which the store never reads, is left
  out).
\<close>

record commit =
  sha :: string
  summary :: string
  body :: string
  parentSHAs :: "string list"

text \<open>The three notification channels of the store's emitter, with their payloads.\<close>

datatype event = DidUpdate | DidLoadNewCommits "commit list" | DidError error

text \<open>
  The fields of \<^verbatim>\<open>GitStore\<close> that the history loaders touch: \<^verbatim>\<open>commits\<close>,
  \<^verbatim>\<open>_history\<close> and \<^verbatim>\<open>requestsInFight\<close>. Two more fields record what the store does to
  its collaborators: \<open>emitted\<close> is the sequence of notifications sent through the emitter,
  oldest first, and \<open>gitCalls\<close> the sequence of \<^verbatim>\<open>LocalGitOperations.getCommits\<close>
  invocations (revision range and limit), oldest first.
\<close>

record git_store =
  commits :: "string \<rightharpoonup> commit"
  history :: "string list"
  requestsInFight :: "string set"
  emitted :: "event list"
  gitCalls :: "(string \<times> nat) list"

text \<open>
  What the caller of an \<^verbatim>\<open>async\<close> method holds: a promise that is still pending (the
  method is suspended at its \<^verbatim>\<open>await\<close>; the argument is the request key its
  continuation has captured), resolved, or rejected with the error that propagated.
\<close>

datatype promise = Pending string | Resolved | Rejected error

subsection \<open>Constants and helpers\<close>

definition CommitBatchSize :: nat where
  "CommitBatchSize = 100"

definition LoadingHistoryRequestKey :: string where
  "LoadingHistoryRequestKey = ''history''"

definition emitUpdate :: "git_store \<Rightarrow> git_store" where
  "emitUpdate s = s\<lparr>emitted := emitted s @ [DidUpdate]\<rparr>"

definition emitNewCommitsLoaded :: "commit list \<Rightarrow> git_store \<Rightarrow> git_store" where
  "emitNewCommitsLoaded cs s = s\<lparr>emitted := emitted s @ [DidLoadNewCommits cs]\<rparr>"

definition emitError :: "error \<Rightarrow> git_store \<Rightarrow> git_store" where
  "emitError e s = s\<lparr>emitted := emitted s @ [DidError e]\<rparr>"

text \<open>\<^verbatim>\<open>storeCommits\<close>: the loop sets \<^verbatim>\<open>commits[commit.sha] = commit\<close> for each commit in order.\<close>

definition storeCommits :: "commit list \<Rightarrow> git_store \<Rightarrow> git_store" where
  "storeCommits cs s = s\<lparr>commits := fold (\<lambda>c m. m(sha c \<mapsto> c)) cs (commits s)\<rparr>"

text \<open>
  \<^verbatim>\<open>Array.prototype.findIndex\<close>: the index of the first element satisfying the predicate,
  or \<open>-1\<close>.
\<close>

fun findIndexFrom :: "('a \<Rightarrow> bool) \<Rightarrow> nat \<Rightarrow> 'a list \<Rightarrow> int" where
  "findIndexFrom p k [] = - 1"
| "findIndexFrom p k (x # xs) = (if p x then int k else findIndexFrom p (Suc k) xs)"

definition findIndex :: "('a \<Rightarrow> bool) \<Rightarrow> 'a list \<Rightarrow> int" where
  "findIndex p xs = findIndexFrom p 0 xs"

text \<open>\<^verbatim>\<open>xs.slice(0, e)\<close>: a negative end counts from the end of the array.\<close>

definition slice0 :: "'a list \<Rightarrow> int \<Rightarrow> 'a list" where
  "slice0 xs e = (if e < 0 then take (nat (int (length xs) + e)) xs else take (nat e) xs)"

text \<open>
  \<^verbatim>\<open>performFailableOperation(fn)\<close>. The argument is how the awaited \<^verbatim>\<open>fn()\<close> settled:
  \<open>Inl e\<close> when it threw \<open>e\<close>, \<open>Inr r\<close> when it returned \<open>r\<close>. A thrown error is
  caught and emitted and the result is \<^verbatim>\<open>undefined\<close> (\<open>None\<close>).
\<close>

definition performFailableOperation :: "error + 'a \<Rightarrow> git_store \<Rightarrow> 'a option \<times> git_store" where
  "performFailableOperation settled s =
     (case settled of
        Inl e \<Rightarrow> (None, emitError e s)
      | Inr result \<Rightarrow> (Some result, s))"

subsection \<open>loadHistory\<close>

text \<open>
  An \<^verbatim>\<open>async\<close> method runs synchronously up to its first \<^verbatim>\<open>await\<close>. For
  \<^verbatim>\<open>loadHistory\<close> that is: the guard, adding the request key, and the invocation of
  \<^verbatim>\<open>getCommits(repository, 'HEAD', CommitBatchSize)\<close>.
\<close>

definition loadHistory_start :: "git_store \<Rightarrow> promise \<times> git_store" where
  "loadHistory_start s =
     (if LoadingHistoryRequestKey \<in> requestsInFight s then (Resolved, s)
      else (Pending LoadingHistoryRequestKey,
            s\<lparr>requestsInFight := insert LoadingHistoryRequestKey (requestsInFight s),
              gitCalls := gitCalls s @ [(''HEAD'', CommitBatchSize)]\<rparr>))"

text \<open>
  The rest of \<^verbatim>\<open>loadHistory\<close>, run when the Git request has settled. The store is read
  again here (\<^verbatim>\<open>this._history\<close> is read after the \<^verbatim>\<open>await\<close>).
\<close>

definition loadHistory_resume :: "error + commit list \<Rightarrow> git_store \<Rightarrow> promise \<times> git_store" where
  "loadHistory_resume settled s =
     (case performFailableOperation settled s of
        (None, s1) \<Rightarrow> (Resolved, s1)
      | (Some fetched, s1) \<Rightarrow>
          (let existingHistory = history s1;
               (commits', existingHistory') =
                 (if length existingHistory > 0 then
                    (let mostRecent = hd existingHistory;
                         index = findIndex (\<lambda>c. sha c = mostRecent) fetched
                     in if index > - 1 then (slice0 fetched index, existingHistory)
                        else (fetched, []))
                  else (fetched, existingHistory));
               s2 = s1\<lparr>history := map sha commits' @ existingHistory'\<rparr>;
               s3 = storeCommits commits' s2;
               s4 = s3\<lparr>requestsInFight := requestsInFight s3 - {LoadingHistoryRequestKey}\<rparr>;
               s5 = emitNewCommitsLoaded commits' s4
           in (Resolved, emitUpdate s5)))"

text \<open>A call of \<^verbatim>\<open>loadHistory\<close> that nothing interleaves with, the Git request settling as given.\<close>

definition loadHistory :: "error + commit list \<Rightarrow> git_store \<Rightarrow> promise \<times> git_store" where
  "loadHistory settled s =
     (case loadHistory_start s of
        (Pending k, s1) \<Rightarrow> loadHistory_resume settled s1
      | (p, s1) \<Rightarrow> (p, s1))"

subsection \<open>loadNextHistoryBatch\<close>

definition loadNextHistoryBatch_start :: "git_store \<Rightarrow> promise \<times> git_store" where
  "loadNextHistoryBatch_start s =
     (if LoadingHistoryRequestKey \<in> requestsInFight s then (Resolved, s)
      else if length (history s) = 0 then (Resolved, s)
      else
        (let lastSHA = last (history s);
             requestKey = ''history/'' @ lastSHA
         in if requestKey \<in> requestsInFight s then (Resolved, s)
            else (Pending requestKey,
                  s\<lparr>requestsInFight := insert requestKey (requestsInFight s),
                    gitCalls := gitCalls s @ [(lastSHA @ ''^'', CommitBatchSize)]\<rparr>)))"

definition loadNextHistoryBatch_resume ::
    "string \<Rightarrow> error + commit list \<Rightarrow> git_store \<Rightarrow> promise \<times> git_store" where
  "loadNextHistoryBatch_resume requestKey settled s =
     (case performFailableOperation settled s of
        (None, s1) \<Rightarrow> (Resolved, s1)
      | (Some fetched, s1) \<Rightarrow>
          (let s2 = s1\<lparr>history := history s1 @ map sha fetched\<rparr>;
               s3 = storeCommits fetched s2;
               s4 = s3\<lparr>requestsInFight := requestsInFight s3 - {requestKey}\<rparr>;
               s5 = emitNewCommitsLoaded fetched s4
           in (Resolved, emitUpdate s5)))"

definition loadNextHistoryBatch :: "error + commit list \<Rightarrow> git_store \<Rightarrow> promise \<times> git_store" where
  "loadNextHistoryBatch settled s =
     (case loadNextHistoryBatch_start s of
        (Pending k, s1) \<Rightarrow> loadNextHistoryBatch_resume k settled s1
      | (p, s1) \<Rightarrow> (p, s1))"

subsection \<open>Executions\<close>

text \<open>
  The event loop runs one step at a time: a caller invokes one of the two loaders, or one
  of the outstanding Git requests settles and the method awaiting it continues. The
  methods awaiting a request are kept with the store; Git requests may settle in any
  order. The other methods of \<^verbatim>\<open>GitStore\<close> read or write neither \<^verbatim>\<open>_history\<close> nor
  \<^verbatim>\<open>requestsInFight\<close>.
\<close>

datatype awaiting = AwaitLoadHistory | AwaitLoadNextHistoryBatch string

datatype action =
    CallLoadHistory
  | CallLoadNextHistoryBatch
  | GitSettles nat "error + commit list"

record system =
  store :: git_store
  suspended :: "awaiting list"

definition remove_nth :: "nat \<Rightarrow> 'a list \<Rightarrow> 'a list" where
  "remove_nth n xs = take n xs @ drop (Suc n) xs"

fun step :: "system \<Rightarrow> action \<Rightarrow> system" where
  "step sys CallLoadHistory =
     (case loadHistory_start (store sys) of
        (Pending k, s1) \<Rightarrow> \<lparr>store = s1, suspended = suspended sys @ [AwaitLoadHistory]\<rparr>
      | (p, s1) \<Rightarrow> \<lparr>store = s1, suspended = suspended sys\<rparr>)"
| "step sys CallLoadNextHistoryBatch =
     (case loadNextHistoryBatch_start (store sys) of
        (Pending k, s1) \<Rightarrow>
          \<lparr>store = s1, suspended = suspended sys @ [AwaitLoadNextHistoryBatch k]\<rparr>
      | (p, s1) \<Rightarrow> \<lparr>store = s1, suspended = suspended sys\<rparr>)"
| "step sys (GitSettles n settled) =
     (if n < length (suspended sys) then
        (case suspended sys ! n of
           AwaitLoadHistory \<Rightarrow>
             \<lparr>store = snd (loadHistory_resume settled (store sys)),
              suspended = remove_nth n (suspended sys)\<rparr>
         | AwaitLoadNextHistoryBatch k \<Rightarrow>
             \<lparr>store = snd (loadNextHistoryBatch_resume k settled (store sys)),
              suspended = remove_nth n (suspended sys)\<rparr>)
      else sys)"

definition run :: "system \<Rightarrow> action list \<Rightarrow> system" where
  "run sys as = foldl step sys as"

text \<open>A freshly constructed store, with nothing suspended.\<close>

definition initial_store :: git_store where
  "initial_store =
     \<lparr>commits = Map.empty, history = [], requestsInFight = {}, emitted = [], gitCalls = []\<rparr>"

definition initial_system :: system where
  "initial_system = \<lparr>store = initial_store, suspended = []\<rparr>"

subsection \<open>Example stores and batches\<close>

definition example_commit :: "string \<Rightarrow> commit" where
  "example_commit h = \<lparr>sha = h, summary = ''s'', body = ''b'', parentSHAs = []\<rparr>"

definition example_store :: git_store where
  "example_store = initial_store\<lparr>history := [''c0'', ''c1'', ''c2'']\<rparr>"

definition example_batch :: "commit list" where
  "example_batch = map example_commit [''n0'', ''n1'', ''c0'', ''c1'', ''c2'']"

definition diverged_batch :: "commit list" where
  "diverged_batch = map example_commit [''d0'', ''d1'']"

subsection \<open>Request keys of suspended methods\<close>

text \<open>The request key that a suspended method added before it was suspended.\<close>

fun keyOf :: "awaiting \<Rightarrow> string" where
  "keyOf AwaitLoadHistory = LoadingHistoryRequestKey"
| "keyOf (AwaitLoadNextHistoryBatch k) = k"

text \<open>
  What holds of every system reached from the initial one: no two suspended methods hold
  the same request key, and the key of every suspended method is in flight.
\<close>

definition consistent :: "system \<Rightarrow> bool" where
  "consistent sys \<longleftrightarrow>
     distinct (map keyOf (suspended sys)) \<and>
     keyOf ` set (suspended sys) \<subseteq> requestsInFight (store sys)"

text \<open>A key is abandoned when it is in flight and no suspended method is left to remove it.\<close>

definition abandoned :: "string \<Rightarrow> system \<Rightarrow> bool" where
  "abandoned k sys \<longleftrightarrow>
     k \<in> requestsInFight (store sys) \<and> k \<notin> keyOf ` set (suspended sys)"

text \<open>Two executions: one suspended in \<^verbatim>\<open>loadHistory\<close>, one in \<^verbatim>\<open>loadNextHistoryBatch\<close>.\<close>

definition awaiting_history :: system where
  "awaiting_history = run initial_system [CallLoadHistory]"

definition awaiting_next_batch :: system where
  "awaiting_next_batch =
     run initial_system [CallLoadHistory, GitSettles 0 (Inr example_batch), CallLoadNextHistoryBatch]"

section \<open>The repository catalog (src/shared-process/repositories-store.ts)\<close>

subsection \<open>The model classes\<close>

text \<open>
  Modelled from the spec: the classes \<^verbatim>\<open>Owner\<close>, \<^verbatim>\<open>GitHubRepository\<close> and
  \<^verbatim>\<open>Repository\<close> are declared in the models directory, which is not among these
  sources. A remote owner has a login and an API endpoint; a remote repository a name, an
  owner, a visibility flag, a fork flag and a web URL; a local repository a path, an
  optional remote repository and an identifier that is absent until the store assigns
  one. Each field below is named after the getter through which the store reads it, in
  the order of the constructor's arguments.
\<close>

record owner =
  getLogin :: string
  getEndpoint :: string

record gitHubRepository =
  getName :: string
  getOwner :: owner
  getPrivate :: bool
  getFork :: bool
  getHTMLURL :: string

record repository =
  getPath :: string
  getGitHubRepository :: "gitHubRepository option"
  getID :: "nat option"

definition withID :: "nat \<Rightarrow> repository \<Rightarrow> repository" where
  "withID i repo = repo\<lparr>getID := Some i\<rparr>"

subsection \<open>The datastore\<close>

text \<open>
  Modelled from the spec: the \<^verbatim>\<open>Database\<close> class (./database) is not among these sources.
  It is an embedded transactional datastore with three record collections, local
  repositories, remote repositories and remote owners, linked by integer identifiers that
  the datastore assigns on insert, and supporting get-by-id, lookup by an indexed field
  with case-insensitive equality, add, update and put (upsert).

  A collection holds its rows in ascending order of their identifier, which is how
  \<^verbatim>\<open>toArray\<close> lists them, together with the next identifier that the key generator will
  hand out. The row object's own \<^verbatim>\<open>id\<close> property is the identifier it is stored under.
  The field \<^verbatim>\<open>private\<close> is called \<open>isPrivate\<close> here.
\<close>

record databaseOwner =
  login :: string
  endpoint :: string

record databaseGitHubRepository =
  ownerID :: nat
  name :: string
  isPrivate :: bool
  fork :: bool
  htmlURL :: string

record databaseRepository =
  path :: string
  gitHubRepositoryID :: "nat option"

record 'a table =
  rows :: "(nat \<times> 'a) list"
  nextID :: nat

datatype txMode = ReadOnly | ReadWrite

datatype tableName = Repositories | GitHubRepositories | Owners

text \<open>
  Besides the three collections, \<open>transactions\<close> records every transaction that was
  opened on the datastore (its mode and the collections it spans), oldest first.
\<close>

record database =
  repositories :: "databaseRepository table"
  gitHubRepositories :: "databaseGitHubRepository table"
  owners :: "databaseOwner table"
  transactions :: "(txMode \<times> tableName list) list"

definition tbl_get :: "'a table \<Rightarrow> nat \<Rightarrow> 'a option" where
  "tbl_get t k = map_of (rows t) k"

text \<open>\<^verbatim>\<open>add\<close> of a row without identifier: the key generator supplies it.\<close>

definition tbl_add :: "'a \<Rightarrow> 'a table \<Rightarrow> nat \<times> 'a table" where
  "tbl_add row t = (nextID t, t\<lparr>rows := rows t @ [(nextID t, row)], nextID := Suc (nextID t)\<rparr>)"

fun upsert :: "nat \<Rightarrow> 'a \<Rightarrow> (nat \<times> 'a) list \<Rightarrow> (nat \<times> 'a) list" where
  "upsert k v [] = [(k, v)]"
| "upsert k v ((k', v') # xs) =
     (if k = k' then (k, v) # xs
      else if k < k' then (k, v) # (k', v') # xs
      else (k', v') # upsert k v xs)"

text \<open>
  \<^verbatim>\<open>put\<close>: a row that carries an identifier replaces the row stored under it (or is
  inserted under it, the key generator moving past it); a row without identifier is added.
\<close>

definition tbl_put :: "nat option \<Rightarrow> 'a \<Rightarrow> 'a table \<Rightarrow> nat \<times> 'a table" where
  "tbl_put key row t =
     (case key of
        None \<Rightarrow> tbl_add row t
      | Some k \<Rightarrow> (k, t\<lparr>rows := upsert k row (rows t), nextID := max (nextID t) (Suc k)\<rparr>))"

text \<open>\<^verbatim>\<open>update(key, changes)\<close>: applies the changes to the row under the key, if there is one.\<close>

definition tbl_update :: "nat \<Rightarrow> ('a \<Rightarrow> 'a) \<Rightarrow> 'a table \<Rightarrow> 'a table" where
  "tbl_update k change t =
     t\<lparr>rows := map (\<lambda>(i, r). if i = k then (i, change r) else (i, r)) (rows t)\<rparr>"

definition toArray :: "'a table \<Rightarrow> (nat \<times> 'a) list" where
  "toArray t = rows t"

text \<open>
  Case folding. \<^verbatim>\<open>equalsIgnoreCase\<close> compares the two strings after
  \<^verbatim>\<open>String.prototype.toLowerCase\<close>, which belongs to the JavaScript runtime and folds
  every cased letter of Unicode. The folding is a parameter \<open>lower\<close> of the comparison
  and of every operation that looks an owner up, so that what is proved of them holds of
  the runtime's folding, whatever letters it folds and however the strings are encoded.
\<close>

definition equalsIgnoreCase :: "(string \<Rightarrow> string) \<Rightarrow> string \<Rightarrow> string \<Rightarrow> bool" where
  "equalsIgnoreCase lower a b \<longleftrightarrow> lower a = lower b"

text \<open>
  \<^verbatim>\<open>where('login').equalsIgnoreCase(l).limit(1).first()\<close>: the matching rows are visited
  along the index on \<^verbatim>\<open>login\<close>, that is in ascending order of the login and, among equal
  logins, of the identifier; the first one is the result, \<^verbatim>\<open>undefined\<close> if there is none.
\<close>

fun firstInLoginIndex :: "(nat \<times> databaseOwner) list \<Rightarrow> (nat \<times> databaseOwner) option" where
  "firstInLoginIndex [] = None"
| "firstInLoginIndex (x # xs) =
     (case firstInLoginIndex xs of
        None \<Rightarrow> Some x
      | Some y \<Rightarrow>
          if login (snd y) < login (snd x) \<or> (login (snd y) = login (snd x) \<and> fst y < fst x)
          then Some y else Some x)"

definition firstOwnerByLogin ::
    "(string \<Rightarrow> string) \<Rightarrow> string \<Rightarrow> databaseOwner table \<Rightarrow> (nat \<times> databaseOwner) option" where
  "firstOwnerByLogin lower l t =
     firstInLoginIndex (filter (\<lambda>(i, ow). equalsIgnoreCase lower (login ow) l) (rows t))"

text \<open>
  \<^verbatim>\<open>db.transaction(mode, tables..., scope)\<close>: the scope runs on the datastore; when it
  throws, the transaction is aborted, nothing it wrote is kept and the promise of the
  transaction is rejected with what was thrown.
\<close>

definition transaction ::
    "txMode \<Rightarrow> tableName list \<Rightarrow> (database \<Rightarrow> error + 'a \<times> database) \<Rightarrow> database \<Rightarrow>
     (error + 'a) \<times> database" where
  "transaction mode tables scope db =
     (let db0 = db\<lparr>transactions := transactions db @ [(mode, tables)]\<rparr>
      in case scope db0 of
           Inl e \<Rightarrow> (Inl e, db0)
         | Inr (result, db1) \<Rightarrow> (Inr result, db1))"

text \<open>
  An identifier as a JavaScript condition: \<^verbatim>\<open>null\<close>, \<^verbatim>\<open>undefined\<close> and \<open>0\<close> count as
  false. The result is the identifier when the condition holds.
\<close>

definition truthyID :: "nat option \<Rightarrow> nat option" where
  "truthyID x = (case x of None \<Rightarrow> None | Some n \<Rightarrow> if n = 0 then None else Some n)"

subsection \<open>getRepositories\<close>

definition inflate :: "database \<Rightarrow> nat \<times> databaseRepository \<Rightarrow> error + repository" where
  "inflate db repo =
     (case truthyID (gitHubRepositoryID (snd repo)) of
        Some g \<Rightarrow>
          (case tbl_get (gitHubRepositories db) g of
             None \<Rightarrow> Inl TypeError
           | Some gitHubRepository \<Rightarrow>
               (case tbl_get (owners db) (ownerID gitHubRepository) of
                  None \<Rightarrow> Inl TypeError
                | Some ow \<Rightarrow>
                    (let gitHubRepo =
                           \<lparr>getName = name gitHubRepository,
                            getOwner = \<lparr>getLogin = login ow, getEndpoint = endpoint ow\<rparr>,
                            getPrivate = isPrivate gitHubRepository,
                            getFork = fork gitHubRepository,
                            getHTMLURL = htmlURL gitHubRepository\<rparr>
                     in Inr \<lparr>getPath = path (snd repo), getGitHubRepository = Some gitHubRepo,
                             getID = Some (fst repo)\<rparr>)))
      | None \<Rightarrow>
          Inr \<lparr>getPath = path (snd repo), getGitHubRepository = None, getID = Some (fst repo)\<rparr>)"

fun inflateAll :: "database \<Rightarrow> (nat \<times> databaseRepository) list \<Rightarrow> error + repository list" where
  "inflateAll db [] = Inr []"
| "inflateAll db (repo # repos) =
     (case inflate db repo of
        Inl e \<Rightarrow> Inl e
      | Inr inflatedRepo \<Rightarrow>
          (case inflateAll db repos of
             Inl e \<Rightarrow> Inl e
           | Inr inflatedRepos \<Rightarrow> Inr (inflatedRepo # inflatedRepos)))"

definition getRepositories :: "database \<Rightarrow> (error + repository list) \<times> database" where
  "getRepositories db =
     transaction ReadOnly [Repositories, GitHubRepositories, Owners]
       (\<lambda>d. case inflateAll d (toArray (repositories d)) of
               Inl e \<Rightarrow> Inl e
             | Inr inflatedRepos \<Rightarrow> Inr (inflatedRepos, d))
       db"

subsection \<open>updateGitHubRepository\<close>

text \<open>
  The scope of the transaction. First the identifier of an existing remote-repository
  row (if the local row is linked) and the identifier of the owner are found
  (\<open>resolveOwner\<close>), the owner row being added when the lookup by login finds none
  (\<open>ensureOwner\<close>); then the remote-repository row \<^verbatim>\<open>info\<close> is put and the local row
  updated.
\<close>

definition ensureOwner ::
    "(string \<Rightarrow> string) \<Rightarrow> owner \<Rightarrow> databaseOwner table \<Rightarrow> nat \<times> databaseOwner table" where
  "ensureOwner lower ow t =
     (case firstOwnerByLogin lower (getLogin ow) t of
        Some existingOwner \<Rightarrow> (fst existingOwner, t)
      | None \<Rightarrow> tbl_add \<lparr>login = getLogin ow, endpoint = getEndpoint ow\<rparr> t)"

definition resolveOwner ::
    "(string \<Rightarrow> string) \<Rightarrow> databaseRepository \<Rightarrow> gitHubRepository \<Rightarrow> database \<Rightarrow>
     error + (nat option \<times> nat \<times> database)" where
  "resolveOwner lower localRepo newGitHubRepo db =
     (case truthyID (gitHubRepositoryID localRepo) of
        Some g \<Rightarrow>
          (case tbl_get (gitHubRepositories db) g of
             None \<Rightarrow> Inl (FatalError ''Couldn't look up an existing GitHub repository.'')
           | Some existingGitHubRepo \<Rightarrow>
               (case tbl_get (owners db) (ownerID existingGitHubRepo) of
                  None \<Rightarrow> Inl TypeError
                | Some ow \<Rightarrow> Inr (Some g, ownerID existingGitHubRepo, db)))
      | None \<Rightarrow>
          (let (ownerID', owners') = ensureOwner lower (getOwner newGitHubRepo) (owners db)
           in Inr (None, ownerID', db\<lparr>owners := owners'\<rparr>)))"

definition gitHubRepositoryInfo :: "nat \<Rightarrow> gitHubRepository \<Rightarrow> databaseGitHubRepository" where
  "gitHubRepositoryInfo ownerID' newGitHubRepo =
     \<lparr>ownerID = ownerID',
      name = getName newGitHubRepo,
      isPrivate = getPrivate newGitHubRepo,
      fork = getFork newGitHubRepo,
      htmlURL = getHTMLURL newGitHubRepo\<rparr>"

definition updateGitHubRepository_scope ::
    "(string \<Rightarrow> string) \<Rightarrow> nat \<Rightarrow> gitHubRepository \<Rightarrow> database \<Rightarrow>
     error + unit \<times> database" where
  "updateGitHubRepository_scope lower repoID newGitHubRepo db =
     (case tbl_get (repositories db) repoID of
        None \<Rightarrow> Inl TypeError
      | Some localRepo \<Rightarrow>
          (case resolveOwner lower localRepo newGitHubRepo db of
             Inl e \<Rightarrow> Inl e
           | Inr (existingID, ownerID', db1) \<Rightarrow>
               (let info = gitHubRepositoryInfo ownerID' newGitHubRepo;
                    (gitHubRepositoryID', gitHubRepositories') =
                      tbl_put existingID info (gitHubRepositories db1);
                    db2 = db1\<lparr>gitHubRepositories := gitHubRepositories'\<rparr>
                in Inr ((), db2\<lparr>repositories :=
                           tbl_update repoID (\<lambda>r. r\<lparr>gitHubRepositoryID := Some gitHubRepositoryID'\<rparr>)
                             (repositories db2)\<rparr>))))"

definition updateGitHubRepository ::
    "(string \<Rightarrow> string) \<Rightarrow> repository \<Rightarrow> database \<Rightarrow> (error + unit) \<times> database" where
  "updateGitHubRepository lower repository db =
     (case truthyID (getID repository) of
        None \<Rightarrow>
          (Inl (FatalError
             ''`updateGitHubRepository` can only update a GitHub repository for a repository which has been added to the database.''),
           db)
      | Some repoID \<Rightarrow>
          (case getGitHubRepository repository of
             None \<Rightarrow>
               (Inl (FatalError
                  ''`updateGitHubRepository` can only update a GitHub repository. It cannot remove one.''),
                db)
           | Some newGitHubRepo \<Rightarrow>
               transaction ReadWrite [Repositories, GitHubRepositories, Owners]
                 (updateGitHubRepository_scope lower repoID newGitHubRepo) db))"

text \<open>Whether a call failed through \<^verbatim>\<open>fatalError\<close>.\<close>

definition isFatal :: "error + 'a \<Rightarrow> bool" where
  "isFatal result = (case result of Inl (FatalError msg) \<Rightarrow> True | _ \<Rightarrow> False)"

subsection \<open>addRepository\<close>

definition addRepository ::
    "(string \<Rightarrow> string) \<Rightarrow> repository \<Rightarrow> database \<Rightarrow> (error + repository) \<times> database" where
  "addRepository lower repo db =
     (case transaction ReadWrite [Repositories]
             (\<lambda>d. let (i, repositories') =
                         tbl_add \<lparr>path = getPath repo, gitHubRepositoryID = None\<rparr> (repositories d)
                   in Inr (i, d\<lparr>repositories := repositories'\<rparr>))
             db of
        (Inl e, db1) \<Rightarrow> (Inl e, db1)
      | (Inr i, db1) \<Rightarrow>
          (let repoWithID = withID i repo
           in case getGitHubRepository repo of
                Some g \<Rightarrow>
                  (case updateGitHubRepository lower repoWithID db1 of
                     (Inl e, db2) \<Rightarrow> (Inl e, db2)
                   | (Inr u, db2) \<Rightarrow> (Inr repoWithID, db2))
              | None \<Rightarrow> (Inr repoWithID, db1)))"

text \<open>\<^verbatim>\<open>updateGitHubRepository\<close> called with each of the given repositories in turn.\<close>

fun updateGitHubRepositories ::
    "(string \<Rightarrow> string) \<Rightarrow> repository list \<Rightarrow> database \<Rightarrow> (error + unit) \<times> database" where
  "updateGitHubRepositories lower [] db = (Inr (), db)"
| "updateGitHubRepositories lower (r # rs) db =
     (case updateGitHubRepository lower r db of
        (Inl e, db1) \<Rightarrow> (Inl e, db1)
      | (Inr u, db1) \<Rightarrow> updateGitHubRepositories lower rs db1)"

subsection \<open>Well-formed datastores\<close>

text \<open>The datastore before anything was stored: key generators start at 1.\<close>

definition empty_table :: "'a table" where
  "empty_table = \<lparr>rows = [], nextID = 1\<rparr>"

definition empty_database :: database where
  "empty_database =
     \<lparr>repositories = empty_table, gitHubRepositories = empty_table, owners = empty_table,
      transactions = []\<rparr>"

text \<open>
  A collection is well formed when its identifiers are positive, strictly ascending and
  below the key generator. A datastore is well formed when its collections are and
  every reference resolves: the remote repository a local row is linked to, and the owner
  of every remote-repository row.
\<close>

definition wf_table :: "'a table \<Rightarrow> bool" where
  "wf_table t \<longleftrightarrow>
     sorted_wrt (<) (map fst (rows t)) \<and> (\<forall>k \<in> fst ` set (rows t). 0 < k \<and> k < nextID t) \<and>
     0 < nextID t"

definition wf_database :: "database \<Rightarrow> bool" where
  "wf_database db \<longleftrightarrow>
     wf_table (repositories db) \<and> wf_table (gitHubRepositories db) \<and> wf_table (owners db) \<and>
     (\<forall>i r g. tbl_get (repositories db) i = Some r \<longrightarrow>
        truthyID (gitHubRepositoryID r) = Some g \<longrightarrow>
          tbl_get (gitHubRepositories db) g \<noteq> None) \<and>
     (\<forall>g gh. tbl_get (gitHubRepositories db) g = Some gh \<longrightarrow>
        tbl_get (owners db) (ownerID gh) \<noteq> None)"

text \<open>What a local repository is linked to: the remote-repository row and its owner row.\<close>

definition linkedGitHubRepositoryID :: "nat \<Rightarrow> database \<Rightarrow> nat option" where
  "linkedGitHubRepositoryID i db =
     (case tbl_get (repositories db) i of
        None \<Rightarrow> None
      | Some r \<Rightarrow> truthyID (gitHubRepositoryID r))"

definition linkedOwnerID :: "nat \<Rightarrow> database \<Rightarrow> nat option" where
  "linkedOwnerID i db =
     (case linkedGitHubRepositoryID i db of
        None \<Rightarrow> None
      | Some g \<Rightarrow> map_option ownerID (tbl_get (gitHubRepositories db) g))"

subsection \<open>Example repositories and datastores\<close>

text \<open>
  The folding of the examples: \<^verbatim>\<open>toLowerCase\<close> on strings of code units below 256, which
  is all that a \<open>char\<close> holds. The letters A to Z and \<open>U+00C0\<close> to \<open>U+00DE\<close> (but for the
  multiplication sign \<open>U+00D7\<close>) are folded to the code unit 32 above; every other code
  unit is its own lower case.
\<close>

definition lowerChar :: "char \<Rightarrow> char" where
  "lowerChar c =
     (let n = of_char c :: nat
      in if (65 \<le> n \<and> n \<le> 90) \<or> (192 \<le> n \<and> n \<le> 222 \<and> n \<noteq> 215)
         then char_of (n + 32) else c)"

definition toLowerCase :: "string \<Rightarrow> string" where
  "toLowerCase s = map lowerChar s"

definition octocat_remote :: gitHubRepository where
  "octocat_remote =
     \<lparr>getName = ''hello-world'',
      getOwner = \<lparr>getLogin = ''Octocat'', getEndpoint = ''https://api.github.com''\<rparr>,
      getPrivate = False, getFork = False,
      getHTMLURL = ''https://github.com/Octocat/hello-world''\<rparr>"

definition enterprise_remote :: gitHubRepository where
  "enterprise_remote =
     \<lparr>getName = ''spoon-knife'',
      getOwner = \<lparr>getLogin = ''octocat'', getEndpoint = ''https://ghe.example.com/api/v3''\<rparr>,
      getPrivate = True, getFork = True,
      getHTMLURL = ''https://ghe.example.com/octocat/spoon-knife''\<rparr>"

definition octocat_repo :: repository where
  "octocat_repo =
     \<lparr>getPath = ''/some/cool/path'', getGitHubRepository = Some octocat_remote, getID = None\<rparr>"

definition enterprise_repo :: repository where
  "enterprise_repo =
     \<lparr>getPath = ''/work/spoon-knife'', getGitHubRepository = Some enterprise_remote,
      getID = None\<rparr>"

text \<open>Two owners whose logins differ in the case of a letter beyond ASCII, \<open>U+00C9\<close> and \<open>U+00E9\<close>.\<close>

definition ecole_remote :: gitHubRepository where
  "ecole_remote =
     \<lparr>getName = ''cours'',
      getOwner = \<lparr>getLogin = CHR 0xC9 # ''cole'', getEndpoint = ''https://api.github.com''\<rparr>,
      getPrivate = False, getFork = False,
      getHTMLURL = ''https://github.com/ecole/cours''\<rparr>"

definition ecole_lower_remote :: gitHubRepository where
  "ecole_lower_remote =
     \<lparr>getName = ''notes'',
      getOwner = \<lparr>getLogin = CHR 0xE9 # ''cole'', getEndpoint = ''https://api.github.com''\<rparr>,
      getPrivate = False, getFork = True,
      getHTMLURL = ''https://github.com/ecole/notes''\<rparr>"

definition bare_repo :: repository where
  "bare_repo = \<lparr>getPath = ''/some/cool/path'', getGitHubRepository = None, getID = None\<rparr>"

definition other_bare_repo :: repository where
  "other_bare_repo = \<lparr>getPath = ''/work/spoon-knife'', getGitHubRepository = None, getID = None\<rparr>"

definition two_bare_database :: database where
  "two_bare_database =
     snd (addRepository toLowerCase other_bare_repo
            (snd (addRepository toLowerCase bare_repo empty_database)))"

definition ecole_repo :: repository where
  "ecole_repo =
     \<lparr>getPath = ''/ecole/cours'', getGitHubRepository = Some ecole_remote, getID = None\<rparr>"

definition ecole_lower_repo :: repository where
  "ecole_lower_repo =
     \<lparr>getPath = ''/ecole/notes'', getGitHubRepository = Some ecole_lower_remote, getID = None\<rparr>"

definition ecole_database :: database where
  "ecole_database = snd (addRepository toLowerCase ecole_repo empty_database)"

definition octocat_database :: database where
  "octocat_database = snd (addRepository toLowerCase octocat_repo empty_database)"

text \<open>A datastore whose only local repository refers to a remote-repository row that is not there.\<close>

definition dangling_database :: database where
  "dangling_database =
     \<lparr>repositories =
        \<lparr>rows = [(1, \<lparr>path = ''/some/cool/path'', gitHubRepositoryID = Some 7\<rparr>)], nextID = 2\<rparr>,
      gitHubRepositories = empty_table, owners = empty_table, transactions = []\<rparr>"

section \<open>Properties of the commit history cache\<close>

lemmas example_defs = example_commit_def example_store_def example_batch_def diverged_batch_def
  initial_store_def LoadingHistoryRequestKey_def

subsection \<open>findIndex\<close>

lemma findIndexFrom_none_iff:
  "(findIndexFrom p k xs = - 1) = (\<forall>x \<in> set xs. \<not> p x)"
proof (induction xs arbitrary: k)
  case Nil
  then show ?case by simp
next
  case (Cons x xs)
  then show ?case by auto
qed

lemma findIndexFrom_first:
  "\<exists>x \<in> set xs. p x \<Longrightarrow>
   \<exists>i < length xs. findIndexFrom p k xs = int (k + i) \<and> p (xs ! i) \<and> (\<forall>j < i. \<not> p (xs ! j))"
proof (induction xs arbitrary: k)
  case Nil
  then show ?case by simp
next
  case (Cons x xs)
  show ?case
  proof (cases "p x")
    case True
    then show ?thesis by (intro exI [of _ 0]) simp
  next
    case False
    with Cons.prems have "\<exists>x \<in> set xs. p x" by auto
    from Cons.IH [OF this, of "Suc k"] obtain i where
      i: "i < length xs" "findIndexFrom p (Suc k) xs = int (Suc k + i)" "p (xs ! i)"
         "\<forall>j < i. \<not> p (xs ! j)" by blast
    have "\<forall>j < Suc i. \<not> p ((x # xs) ! j)"
      using False i(4) by (auto simp: nth_Cons split: nat.splits)
    with i False show ?thesis
      by (intro exI [of _ "Suc i"]) simp
  qed
qed

lemma findIndex_absent:
  "(findIndex p xs = - 1) = (\<forall>x \<in> set xs. \<not> p x)"
  by (simp add: findIndex_def findIndexFrom_none_iff)

lemma findIndex_first:
  "\<exists>x \<in> set xs. p x \<Longrightarrow>
   \<exists>i < length xs. findIndex p xs = int i \<and> p (xs ! i) \<and> (\<forall>j < i. \<not> p (xs ! j))"
  using findIndexFrom_first [of xs p 0] by (simp add: findIndex_def)

subsection \<open>Reconciliation of a fetched batch with the existing history\<close>

lemma history_storeCommits [simp]: "history (storeCommits cs s) = history s"
  and requestsInFight_storeCommits [simp]: "requestsInFight (storeCommits cs s) = requestsInFight s"
  and emitted_storeCommits [simp]: "emitted (storeCommits cs s) = emitted s"
  and gitCalls_storeCommits [simp]: "gitCalls (storeCommits cs s) = gitCalls s"
  by (simp_all add: storeCommits_def)

lemma loadHistory_resume_found:
  assumes "history s \<noteq> []" and "i < length cs" and "sha (cs ! i) = hd (history s)"
    and "\<forall>j < i. sha (cs ! j) \<noteq> hd (history s)"
  shows "history (snd (loadHistory_resume (Inr cs) s)) = map sha (take i cs) @ history s"
proof -
  let ?p = "\<lambda>c. sha c = hd (history s)"
  have ex: "\<exists>x \<in> set cs. ?p x" using assms(2,3) nth_mem by blast
  from findIndex_first [OF ex] obtain i' where
    i': "i' < length cs" "findIndex ?p cs = int i'" "?p (cs ! i')" "\<forall>j < i'. \<not> ?p (cs ! j)"
    by blast
  have "i' = i"
    using assms(2,3,4) i' by (meson linorder_neqE_nat)
  with i'(2) have "findIndex ?p cs = int i" by simp
  with assms(1) show ?thesis
    by (simp add: loadHistory_resume_def performFailableOperation_def slice0_def
        emitUpdate_def emitNewCommitsLoaded_def)
qed

lemma loadHistory_resume_absent:
  assumes "history s \<noteq> []" and "hd (history s) \<notin> sha ` set cs"
  shows "history (snd (loadHistory_resume (Inr cs) s)) = map sha cs"
proof -
  have "\<forall>x \<in> set cs. sha x \<noteq> hd (history s)"
    using assms(2) by (metis imageI)
  then have "findIndex (\<lambda>c. sha c = hd (history s)) cs = - 1"
    by (simp add: findIndex_absent)
  with assms(1) show ?thesis
    by (simp add: loadHistory_resume_def performFailableOperation_def
        emitUpdate_def emitNewCommitsLoaded_def)
qed

lemma loadHistory_unguarded:
  "LoadingHistoryRequestKey \<notin> requestsInFight s \<Longrightarrow>
   loadHistory settled s =
     loadHistory_resume settled
       (s\<lparr>requestsInFight := insert LoadingHistoryRequestKey (requestsInFight s),
          gitCalls := gitCalls s @ [(''HEAD'', CommitBatchSize)]\<rparr>)"
  by (simp add: loadHistory_def loadHistory_start_def)

text \<open>
  Claim C1. A call of \<^verbatim>\<open>loadHistory\<close> on a store with a non-empty history (and no
  \<^verbatim>\<open>"history"\<close> request in flight, so that the call fetches) whose fetched batch \<open>cs\<close>
  contains the SHA that was at index 0 of the history: the search finds that SHA at a
  position \<open>i\<close> of the batch (the first one holding it), and the resulting history is
  the batch truncated to its first \<open>i\<close> entries followed by the whole previous history,
  unchanged.
\<close>

theorem loadHistory_splice:
  assumes "LoadingHistoryRequestKey \<notin> requestsInFight s"
    and "history s \<noteq> []"
    and "hd (history s) \<in> sha ` set cs"
  shows "\<exists>i < length cs.
           sha (cs ! i) = hd (history s) \<and> (\<forall>j < i. sha (cs ! j) \<noteq> hd (history s)) \<and>
           history (snd (loadHistory (Inr cs) s)) = map sha (take i cs) @ history s"
proof -
  let ?p = "\<lambda>c. sha c = hd (history s)"
  have "\<exists>x \<in> set cs. ?p x" using assms(3) by auto
  from findIndex_first [OF this] obtain i where
    i: "i < length cs" "?p (cs ! i)" "\<forall>j < i. \<not> ?p (cs ! j)" by blast
  let ?s1 = "s\<lparr>requestsInFight := insert LoadingHistoryRequestKey (requestsInFight s),
               gitCalls := gitCalls s @ [(''HEAD'', CommitBatchSize)]\<rparr>"
  have "history (snd (loadHistory_resume (Inr cs) ?s1)) = map sha (take i cs) @ history ?s1"
    by (rule loadHistory_resume_found) (use assms(2) i in simp_all)
  then have "history (snd (loadHistory (Inr cs) s)) = map sha (take i cs) @ history s"
    by (simp add: loadHistory_unguarded [OF assms(1)])
  with i show ?thesis by blast
qed

theorem loadHistory_splice_witness:
  "history (snd (loadHistory (Inr example_batch) example_store)) =
     [''n0'', ''n1'', ''c0'', ''c1'', ''c2'']"
proof -
  have h: "LoadingHistoryRequestKey \<notin> requestsInFight example_store"
    "history example_store \<noteq> []"
    "hd (history example_store) \<in> sha ` set example_batch"
    by (simp_all add: example_defs)
  from loadHistory_splice [OF h] obtain i where
    i: "i < length example_batch" "sha (example_batch ! i) = hd (history example_store)"
      "history (snd (loadHistory (Inr example_batch) example_store)) =
         map sha (take i example_batch) @ history example_store"
    by blast
  from i(1) have "i = 0 \<or> i = 1 \<or> i = 2 \<or> i = 3 \<or> i = 4"
    by (simp add: example_defs) arith
  with i(2) have "i = 2"
    by (auto simp: example_defs)
  with i(3) show ?thesis
    by (simp add: example_defs)
qed

text \<open>
  Claim C2. A call of \<^verbatim>\<open>loadHistory\<close> on a store with a non-empty history (and no
  \<^verbatim>\<open>"history"\<close> request in flight) whose fetched batch does not contain the SHA that was
  at index 0 of the history: the resulting history is exactly the SHAs of the fetched
  batch, and nothing of the previous history is kept.
\<close>

theorem loadHistory_divergence_reset:
  assumes "LoadingHistoryRequestKey \<notin> requestsInFight s"
    and "history s \<noteq> []"
    and "hd (history s) \<notin> sha ` set cs"
  shows "history (snd (loadHistory (Inr cs) s)) = map sha cs"
proof -
  let ?s1 = "s\<lparr>requestsInFight := insert LoadingHistoryRequestKey (requestsInFight s),
               gitCalls := gitCalls s @ [(''HEAD'', CommitBatchSize)]\<rparr>"
  have "history (snd (loadHistory_resume (Inr cs) ?s1)) = map sha cs"
    by (rule loadHistory_resume_absent) (use assms in simp_all)
  then show ?thesis
    by (simp add: loadHistory_unguarded [OF assms(1)])
qed

theorem loadHistory_divergence_reset_witness:
  "history (snd (loadHistory (Inr diverged_batch) example_store)) = [''d0'', ''d1'']"
proof -
  have h: "LoadingHistoryRequestKey \<notin> requestsInFight example_store"
    "history example_store \<noteq> []"
    "hd (history example_store) \<notin> sha ` set diverged_batch"
    by (simp_all add: example_defs)
  from loadHistory_divergence_reset [OF h] show ?thesis
    by (simp add: example_defs)
qed

subsection \<open>A failed or returned fetch\<close>

lemma loadNextHistoryBatch_resume_failed:
  "loadNextHistoryBatch_resume k (Inl e) s = (Resolved, s\<lparr>emitted := emitted s @ [DidError e]\<rparr>)"
  by (simp add: loadNextHistoryBatch_resume_def performFailableOperation_def emitError_def)

lemma loadHistory_resume_failed:
  "loadHistory_resume (Inl e) s = (Resolved, s\<lparr>emitted := emitted s @ [DidError e]\<rparr>)"
  by (simp add: loadHistory_resume_def performFailableOperation_def emitError_def)

lemma loadHistory_resume_returned:
  "\<exists>loaded. loadHistory_resume (Inr cs) s = (Resolved, snd (loadHistory_resume (Inr cs) s)) \<and>
      requestsInFight (snd (loadHistory_resume (Inr cs) s)) =
        requestsInFight s - {LoadingHistoryRequestKey} \<and>
      gitCalls (snd (loadHistory_resume (Inr cs) s)) = gitCalls s \<and>
      emitted (snd (loadHistory_resume (Inr cs) s)) =
        emitted s @ [DidLoadNewCommits loaded, DidUpdate]"
  by (simp add: loadHistory_resume_def performFailableOperation_def Let_def
      emitUpdate_def emitNewCommitsLoaded_def split: prod.splits)

lemma loadNextHistoryBatch_resume_returned:
  "loadNextHistoryBatch_resume k (Inr cs) s = (Resolved, snd (loadNextHistoryBatch_resume k (Inr cs) s)) \<and>
      requestsInFight (snd (loadNextHistoryBatch_resume k (Inr cs) s)) = requestsInFight s - {k} \<and>
      gitCalls (snd (loadNextHistoryBatch_resume k (Inr cs) s)) = gitCalls s \<and>
      emitted (snd (loadNextHistoryBatch_resume k (Inr cs) s)) =
        emitted s @ [DidLoadNewCommits cs, DidUpdate]"
  by (simp add: loadNextHistoryBatch_resume_def performFailableOperation_def Let_def
      emitUpdate_def emitNewCommitsLoaded_def)

lemma requestsInFight_loadHistory_resume:
  "requestsInFight (snd (loadHistory_resume settled s)) =
     (case settled of Inl e \<Rightarrow> requestsInFight s
      | Inr cs \<Rightarrow> requestsInFight s - {LoadingHistoryRequestKey})"
  using loadHistory_resume_returned [of _ s]
  by (auto simp: loadHistory_resume_failed split: sum.splits)

lemma requestsInFight_loadNextHistoryBatch_resume:
  "requestsInFight (snd (loadNextHistoryBatch_resume k settled s)) =
     (case settled of Inl e \<Rightarrow> requestsInFight s | Inr cs \<Rightarrow> requestsInFight s - {k})"
  using loadNextHistoryBatch_resume_returned [of k _ s]
  by (auto simp: loadNextHistoryBatch_resume_failed split: sum.splits)

lemma gitCalls_loadHistory_resume:
  "gitCalls (snd (loadHistory_resume settled s)) = gitCalls s"
  using loadHistory_resume_returned [of _ s]
  by (cases settled) (auto simp: loadHistory_resume_failed)

lemma gitCalls_loadNextHistoryBatch_resume:
  "gitCalls (snd (loadNextHistoryBatch_resume k settled s)) = gitCalls s"
  using loadNextHistoryBatch_resume_returned [of k _ s]
  by (cases settled) (auto simp: loadNextHistoryBatch_resume_failed)

lemma step_CallLoadHistory_in_flight:
  "LoadingHistoryRequestKey \<in> requestsInFight (store sys) \<Longrightarrow> step sys CallLoadHistory = sys"
  by (simp add: loadHistory_start_def)

lemma step_CallLoadNextHistoryBatch_in_flight:
  "LoadingHistoryRequestKey \<in> requestsInFight (store sys) \<Longrightarrow>
   step sys CallLoadNextHistoryBatch = sys"
  by (simp add: loadNextHistoryBatch_start_def)

lemma step_CallLoadNextHistoryBatch_same_key:
  "''history/'' @ last (history (store sys)) \<in> requestsInFight (store sys) \<Longrightarrow>
   step sys CallLoadNextHistoryBatch = sys"
  by (simp add: loadNextHistoryBatch_start_def Let_def)

lemma set_remove_nth: "set (remove_nth n xs) \<subseteq> set xs"
  by (auto simp: remove_nth_def dest: in_set_takeD in_set_dropD)

lemma distinct_map_remove_nth:
  assumes "distinct (map f xs)" and "n < length xs"
  shows "distinct (map f (remove_nth n xs)) \<and> f (xs ! n) \<notin> f ` set (remove_nth n xs)"
proof -
  have "xs = take n xs @ xs ! n # drop (Suc n) xs"
    using assms(2) by (rule id_take_nth_drop)
  then have "distinct (map f (take n xs @ xs ! n # drop (Suc n) xs))"
    using assms(1) by simp
  then show ?thesis
    by (auto simp: remove_nth_def)
qed

text \<open>
  Claim C7. When the Git request of \<^verbatim>\<open>loadNextHistoryBatch\<close> fails (the call passed its
  guards, so the collaborator was invoked, and \<^verbatim>\<open>getCommits\<close> threw \<open>e\<close>), the history
  sequence and the commits map are what they were before the call, the error channel
  fires exactly once, with \<open>e\<close>, and the promise of the call is resolved, not rejected.
  The same holds of the continuation alone, in whatever state \<open>t\<close> the request settles.
\<close>

theorem loadNextHistoryBatch_failure_isolated:
  assumes "LoadingHistoryRequestKey \<notin> requestsInFight s"
    and "history s \<noteq> []"
    and "''history/'' @ last (history s) \<notin> requestsInFight s"
  shows "(\<exists>s'. loadNextHistoryBatch (Inl e) s = (Resolved, s') \<and>
            gitCalls s' = gitCalls s @ [(last (history s) @ ''^'', CommitBatchSize)] \<and>
            history s' = history s \<and> commits s' = commits s \<and>
            emitted s' = emitted s @ [DidError e]) \<and>
         loadNextHistoryBatch_resume k (Inl e) t =
           (Resolved, t\<lparr>emitted := emitted t @ [DidError e]\<rparr>)"
  using assms
  by (simp add: loadNextHistoryBatch_def loadNextHistoryBatch_start_def Let_def
      loadNextHistoryBatch_resume_failed)

theorem loadNextHistoryBatch_failure_isolated_witness:
  "loadNextHistoryBatch (Inl (GitError ''fatal: bad revision'')) example_store =
     (Resolved,
      example_store\<lparr>requestsInFight := {''history/c2''},
                     emitted := [DidError (GitError ''fatal: bad revision'')],
                     gitCalls := [(''c2^'', 100)]\<rparr>)"
proof -
  have h: "LoadingHistoryRequestKey \<notin> requestsInFight example_store"
    "history example_store \<noteq> []"
    "''history/'' @ last (history example_store) \<notin> requestsInFight example_store"
    by (simp_all add: example_defs)
  from loadNextHistoryBatch_failure_isolated [OF h, where e = "GitError ''fatal: bad revision''"]
  obtain s' where s': "loadNextHistoryBatch (Inl (GitError ''fatal: bad revision'')) example_store = (Resolved, s')"
    by blast
  then show ?thesis
    by (simp add: loadNextHistoryBatch_def loadNextHistoryBatch_start_def Let_def
      loadNextHistoryBatch_resume_failed example_defs CommitBatchSize_def)
qed

text \<open>
  Claim C8, at a failing input. On a freshly constructed store, whose in-flight set is
  empty, a \<^verbatim>\<open>loadHistory\<close> call whose fetch throws reports the error and leaves history
  and commits alone, but the in-flight set is not what it was before the call: it now
  holds \<^verbatim>\<open>"history"\<close>. The early return on a failed fetch skips the
  \<^verbatim>\<open>requestsInFight.delete\<close> that the successful path performs.
\<close>

theorem loadHistory_failure_leaves_request_in_flight:
  "requestsInFight initial_store = {} \<and>
   loadHistory (Inl (GitError ''fatal: not a git repository'')) initial_store =
     (Resolved,
      initial_store\<lparr>requestsInFight := {''history''},
                     emitted := [DidError (GitError ''fatal: not a git repository'')],
                     gitCalls := [(''HEAD'', 100)]\<rparr>)"
  by (simp add: loadHistory_def loadHistory_start_def loadHistory_resume_failed
      initial_store_def LoadingHistoryRequestKey_def CommitBatchSize_def)

subsection \<open>Executions: what every reachable system satisfies\<close>

lemma consistent_initial: "consistent initial_system"
  by (simp add: consistent_def initial_system_def)

lemma next_key_not_history: "''history/'' @ x \<noteq> LoadingHistoryRequestKey"
  by (simp add: LoadingHistoryRequestKey_def)

lemma consistent_step:
  assumes "consistent sys"
  shows "consistent (step sys a)"
proof (cases a)
  case CallLoadHistory
  with assms show ?thesis
    by (auto simp: consistent_def loadHistory_start_def)
next
  case CallLoadNextHistoryBatch
  with assms show ?thesis
    by (auto simp: consistent_def loadNextHistoryBatch_start_def Let_def)
next
  case (GitSettles n settled)
  show ?thesis
  proof (cases "n < length (suspended sys)")
    case False
    with GitSettles assms show ?thesis by simp
  next
    case True
    from assms have d: "distinct (map keyOf (suspended sys))"
      and sub: "keyOf ` set (suspended sys) \<subseteq> requestsInFight (store sys)"
      by (simp_all add: consistent_def)
    from distinct_map_remove_nth [OF d True]
    have d': "distinct (map keyOf (remove_nth n (suspended sys)))"
      and fresh: "keyOf (suspended sys ! n) \<notin> keyOf ` set (remove_nth n (suspended sys))"
      by simp_all
    have sub': "keyOf ` set (remove_nth n (suspended sys)) \<subseteq>
                requestsInFight (store sys) - {keyOf (suspended sys ! n)}"
      using sub fresh set_remove_nth [of n "suspended sys"] by blast
    show ?thesis
    proof (cases "suspended sys ! n")
      case AwaitLoadHistory
      with GitSettles True d' sub' show ?thesis
        by (auto simp: consistent_def requestsInFight_loadHistory_resume split: sum.splits)
    next
      case (AwaitLoadNextHistoryBatch k)
      with GitSettles True d' sub' show ?thesis
        by (auto simp: consistent_def requestsInFight_loadNextHistoryBatch_resume
            split: sum.splits)
    qed
  qed
qed

lemma consistent_run: "consistent sys \<Longrightarrow> consistent (run sys as)"
  unfolding run_def by (induction as arbitrary: sys) (simp_all add: consistent_step)

lemma abandoned_step:
  assumes "abandoned k sys"
  shows "abandoned k (step sys a)"
proof (cases a)
  case CallLoadHistory
  with assms show ?thesis
    by (auto simp: abandoned_def loadHistory_start_def)
next
  case CallLoadNextHistoryBatch
  with assms show ?thesis
    by (auto simp: abandoned_def loadNextHistoryBatch_start_def Let_def)
next
  case (GitSettles n settled)
  show ?thesis
  proof (cases "n < length (suspended sys)")
    case False
    with GitSettles assms show ?thesis by simp
  next
    case True
    then have mem: "suspended sys ! n \<in> set (suspended sys)" by simp
    with assms have ne: "keyOf (suspended sys ! n) \<noteq> k"
      by (auto simp: abandoned_def)
    have "k \<notin> keyOf ` set (remove_nth n (suspended sys))"
      using assms set_remove_nth [of n "suspended sys"] by (auto simp: abandoned_def)
    with GitSettles True ne assms show ?thesis
      by (cases "suspended sys ! n")
         (auto simp: abandoned_def requestsInFight_loadHistory_resume
            requestsInFight_loadNextHistoryBatch_resume split: sum.splits)
  qed
qed

lemma abandoned_run: "abandoned k sys \<Longrightarrow> abandoned k (run sys as)"
  unfolding run_def by (induction as arbitrary: sys) (simp_all add: abandoned_step)

lemma abandoned_after_failure:
  assumes "consistent sys" and "n < length (suspended sys)"
  shows "abandoned (keyOf (suspended sys ! n)) (step sys (GitSettles n (Inl e)))"
proof -
  from assms have d: "distinct (map keyOf (suspended sys))"
    and sub: "keyOf ` set (suspended sys) \<subseteq> requestsInFight (store sys)"
    by (simp_all add: consistent_def)
  from distinct_map_remove_nth [OF d assms(2)]
  have fresh: "keyOf (suspended sys ! n) \<notin> keyOf ` set (remove_nth n (suspended sys))"
    by simp
  have "keyOf (suspended sys ! n) \<in> requestsInFight (store sys)"
    using sub assms(2) by auto
  with fresh assms(2) show ?thesis
    by (cases "suspended sys ! n")
       (auto simp: abandoned_def loadHistory_resume_failed loadNextHistoryBatch_resume_failed)
qed

lemma gitCalls_step_blocked:
  assumes "LoadingHistoryRequestKey \<in> requestsInFight (store sys)"
  shows "gitCalls (store (step sys a)) = gitCalls (store sys)"
proof (cases a)
  case CallLoadHistory
  with assms show ?thesis by (simp add: step_CallLoadHistory_in_flight del: step.simps)
next
  case CallLoadNextHistoryBatch
  with assms show ?thesis by (simp add: step_CallLoadNextHistoryBatch_in_flight del: step.simps)
next
  case (GitSettles n settled)
  then show ?thesis
    by (auto simp: gitCalls_loadHistory_resume gitCalls_loadNextHistoryBatch_resume
        split: awaiting.splits)
qed

lemma gitCalls_run_blocked:
  "abandoned LoadingHistoryRequestKey sys \<Longrightarrow>
   gitCalls (store (run sys as)) = gitCalls (store sys)"
proof (induction as arbitrary: sys)
  case Nil
  then show ?case by (simp add: run_def)
next
  case (Cons a as)
  from Cons.prems have "abandoned LoadingHistoryRequestKey (step sys a)"
    by (rule abandoned_step)
  from Cons.IH [OF this] have "gitCalls (store (run (step sys a) as)) = gitCalls (store (step sys a))" .
  moreover have "gitCalls (store (step sys a)) = gitCalls (store sys)"
    using Cons.prems by (intro gitCalls_step_blocked) (simp add: abandoned_def)
  ultimately show ?case by (simp add: run_def)
qed

text \<open>
  Claim C10, as amended. Take any execution from a fresh store, and a point of it where
  the Git request of a suspended loader settles by throwing. If the loader was
  \<^verbatim>\<open>loadHistory\<close>, then in every later state of every continuation of the execution the
  key \<^verbatim>\<open>"history"\<close> is still in flight, a call of \<^verbatim>\<open>loadHistory\<close> and a call of
  \<^verbatim>\<open>loadNextHistoryBatch\<close> leave the whole system as it is, and the Git collaborator is
  never invoked again. If the loader was \<^verbatim>\<open>loadNextHistoryBatch\<close>, holding the key
  \<open>k\<close> (that is \<^verbatim>\<open>"history/<lastSHA>"\<close>), then \<open>k\<close> is still in flight in every later
  state, and a call of \<^verbatim>\<open>loadNextHistoryBatch\<close> made while the last SHA of the history
  gives the key \<open>k\<close> leaves the system as it is; a call of \<^verbatim>\<open>loadHistory\<close> is not
  held back by \<open>k\<close>: unless \<^verbatim>\<open>"history"\<close> itself is in flight, it invokes the Git log.
\<close>

theorem failed_fetch_key_never_removed:
  assumes "sys1 = run initial_system before"
    and "n < length (suspended sys1)"
    and "sys2 = step sys1 (GitSettles n (Inl e))"
    and "sys = run sys2 after"
  shows "(suspended sys1 ! n = AwaitLoadHistory \<longrightarrow>
            LoadingHistoryRequestKey \<in> requestsInFight (store sys) \<and>
            step sys CallLoadHistory = sys \<and>
            step sys CallLoadNextHistoryBatch = sys \<and>
            gitCalls (store sys) = gitCalls (store sys2)) \<and>
         (\<forall>k. suspended sys1 ! n = AwaitLoadNextHistoryBatch k \<longrightarrow>
            k \<in> requestsInFight (store sys) \<and>
            (''history/'' @ last (history (store sys)) = k \<longrightarrow>
               step sys CallLoadNextHistoryBatch = sys) \<and>
            (LoadingHistoryRequestKey \<notin> requestsInFight (store sys) \<longrightarrow>
               gitCalls (store (step sys CallLoadHistory)) =
                 gitCalls (store sys) @ [(''HEAD'', CommitBatchSize)]))"
proof -
  have free: "LoadingHistoryRequestKey \<notin> requestsInFight (store sys) \<longrightarrow>
      gitCalls (store (step sys CallLoadHistory)) =
        gitCalls (store sys) @ [(''HEAD'', CommitBatchSize)]"
    by (simp add: loadHistory_start_def)
  have c: "consistent sys1"
    using assms(1) consistent_initial by (simp add: consistent_run)
  have ab2: "abandoned (keyOf (suspended sys1 ! n)) sys2"
    unfolding assms(3) using c assms(2) by (rule abandoned_after_failure)
  then have ab: "abandoned (keyOf (suspended sys1 ! n)) sys"
    unfolding assms(4) by (rule abandoned_run)
  have "gitCalls (store sys) = gitCalls (store sys2)" if "suspended sys1 ! n = AwaitLoadHistory"
    unfolding assms(4) using ab2 that by (simp add: gitCalls_run_blocked)
  with ab free show ?thesis
    by (auto simp: abandoned_def step_CallLoadHistory_in_flight
        step_CallLoadNextHistoryBatch_in_flight step_CallLoadNextHistoryBatch_same_key
        simp del: step.simps)
qed

lemmas run_defs = run_def initial_system_def initial_store_def loadHistory_start_def
  loadNextHistoryBatch_start_def LoadingHistoryRequestKey_def CommitBatchSize_def
  remove_nth_def awaiting_history_def awaiting_next_batch_def

lemma loadHistory_resume_empty_history:
  "history s = [] \<Longrightarrow>
   loadHistory_resume (Inr cs) s =
     (Resolved,
      s\<lparr>commits := fold (\<lambda>c m. m(sha c \<mapsto> c)) cs (commits s),
        history := map sha cs,
        requestsInFight := requestsInFight s - {LoadingHistoryRequestKey},
        emitted := emitted s @ [DidLoadNewCommits cs, DidUpdate]\<rparr>)"
  by (simp add: loadHistory_resume_def performFailableOperation_def Let_def
      emitUpdate_def emitNewCommitsLoaded_def storeCommits_def)

lemma awaiting_history_eq:
  "awaiting_history =
     \<lparr>store = initial_store\<lparr>requestsInFight := {''history''}, gitCalls := [(''HEAD'', 100)]\<rparr>,
      suspended = [AwaitLoadHistory]\<rparr>"
  by (simp add: run_defs)

lemma awaiting_next_batch_suspended:
  "suspended awaiting_next_batch = [AwaitLoadNextHistoryBatch ''history/c2'']"
  by (simp add: run_defs loadHistory_resume_empty_history example_batch_def example_commit_def
      Let_def)

text \<open>
  Claim C6, as amended. A call of \<^verbatim>\<open>loadHistory\<close> made in any state \<open>t\<close> where a request
  keyed \<^verbatim>\<open>"history"\<close> is in flight returns at once, resolved, and changes nothing. For a
  first call that starts a request, a second call before the request settles, and the
  request then settling: the Git log was invoked exactly once, and when the fetch
  returned, exactly one pair of notifications (new commits, then update) fired; when the
  fetch threw, one error notification fired and no such pair.
\<close>

theorem loadHistory_deduplicated:
  assumes "LoadingHistoryRequestKey \<notin> requestsInFight (store sys)"
    and "sys1 = step sys CallLoadHistory"
    and "sys2 = step sys1 CallLoadHistory"
    and "sys3 = step sys2 (GitSettles (length (suspended sys)) settled)"
  shows "(LoadingHistoryRequestKey \<in> requestsInFight (store t) \<longrightarrow>
            loadHistory_start (store t) = (Resolved, store t) \<and> step t CallLoadHistory = t) \<and>
         LoadingHistoryRequestKey \<in> requestsInFight (store sys1) \<and>
         sys2 = sys1 \<and>
         gitCalls (store sys3) = gitCalls (store sys) @ [(''HEAD'', CommitBatchSize)] \<and>
         (case settled of
            Inr cs \<Rightarrow>
              \<exists>loaded. emitted (store sys3) =
                emitted (store sys) @ [DidLoadNewCommits loaded, DidUpdate]
          | Inl e \<Rightarrow> emitted (store sys3) = emitted (store sys) @ [DidError e])"
proof -
  have noop: "loadHistory_start (store t) = (Resolved, store t) \<and> step t CallLoadHistory = t"
    if "LoadingHistoryRequestKey \<in> requestsInFight (store t)" for t
    using that by (simp add: loadHistory_start_def)
  have sys1: "sys1 =
      \<lparr>store = (store sys)\<lparr>requestsInFight :=
                  insert LoadingHistoryRequestKey (requestsInFight (store sys)),
                gitCalls := gitCalls (store sys) @ [(''HEAD'', CommitBatchSize)]\<rparr>,
       suspended = suspended sys @ [AwaitLoadHistory]\<rparr>"
    using assms(1,2) by (simp add: loadHistory_start_def)
  then have inflight: "LoadingHistoryRequestKey \<in> requestsInFight (store sys1)"
    by simp
  with assms(3) have sys2: "sys2 = sys1"
    by (simp add: step_CallLoadHistory_in_flight del: step.simps)
  have sys3: "store sys3 = snd (loadHistory_resume settled (store sys1))"
    unfolding assms(4) sys2 by (simp add: sys1)
  have calls: "gitCalls (store sys3) = gitCalls (store sys) @ [(''HEAD'', CommitBatchSize)]"
    unfolding sys3 gitCalls_loadHistory_resume by (simp add: sys1)
  have fired: "(case settled of
            Inr cs \<Rightarrow>
              \<exists>loaded. emitted (store sys3) =
                emitted (store sys) @ [DidLoadNewCommits loaded, DidUpdate]
          | Inl e \<Rightarrow> emitted (store sys3) = emitted (store sys) @ [DidError e])"
  proof (cases settled)
    case (Inl e)
    then show ?thesis
      unfolding sys3 by (simp add: loadHistory_resume_failed sys1)
  next
    case (Inr cs)
    from loadHistory_resume_returned [of cs "store sys1"] obtain loaded where
      "emitted (snd (loadHistory_resume (Inr cs) (store sys1))) =
         emitted (store sys1) @ [DidLoadNewCommits loaded, DidUpdate]" by blast
    with Inr show ?thesis
      unfolding sys3 by (simp add: sys1)
  qed
  from noop inflight sys2 calls fired show ?thesis by blast
qed

theorem loadHistory_deduplicated_witness:
  "gitCalls (store (run initial_system
      [CallLoadHistory, CallLoadHistory, GitSettles 0 (Inr example_batch)])) = [(''HEAD'', 100)] \<and>
   (\<exists>loaded. emitted (store (run initial_system
      [CallLoadHistory, CallLoadHistory, GitSettles 0 (Inr example_batch)])) =
      [DidLoadNewCommits loaded, DidUpdate])"
proof -
  let ?s3 = "step (step (step initial_system CallLoadHistory) CallLoadHistory)
               (GitSettles 0 (Inr example_batch))"
  have r: "run initial_system [CallLoadHistory, CallLoadHistory, GitSettles 0 (Inr example_batch)] =
      ?s3"
    by (simp add: run_def del: step.simps)
  have h: "LoadingHistoryRequestKey \<notin> requestsInFight (store initial_system)"
    by (simp add: run_defs)
  have len: "length (suspended initial_system) = 0"
    by (simp add: initial_system_def)
  have "gitCalls (store ?s3) = gitCalls (store initial_system) @ [(''HEAD'', CommitBatchSize)] \<and>
      (\<exists>loaded. emitted (store ?s3) =
         emitted (store initial_system) @ [DidLoadNewCommits loaded, DidUpdate])"
    using loadHistory_deduplicated [OF h refl refl refl, where settled = "Inr example_batch"
        and t = initial_system]
    unfolding len sum.case by blast
  then show ?thesis
    unfolding r
    by (simp add: initial_system_def initial_store_def CommitBatchSize_def del: step.simps)
qed

text \<open>
  Claim C6 as stated fails when the fetch of the first call throws: the second call was
  made while \<^verbatim>\<open>"history"\<close> was in flight, the Git log was invoked once, and the only
  notification of the two calls is the error; no (new commits, update) pair fires.
\<close>

theorem loadHistory_deduplicated_failed_fetch:
  "LoadingHistoryRequestKey \<in> requestsInFight (store (run initial_system [CallLoadHistory])) \<and>
   run initial_system
     [CallLoadHistory, CallLoadHistory, GitSettles 0 (Inl (GitError ''fatal: not a git repository''))] =
     \<lparr>store = initial_store
        \<lparr>requestsInFight := {''history''},
         emitted := [DidError (GitError ''fatal: not a git repository'')],
         gitCalls := [(''HEAD'', 100)]\<rparr>,
      suspended = []\<rparr>"
  by (simp add: run_defs loadHistory_resume_failed)

text \<open>
  Claim C10 as stated fails after a throw in \<^verbatim>\<open>loadNextHistoryBatch\<close>. The history is
  loaded, the fetch of the next batch throws, and \<^verbatim>\<open>"history/c2"\<close> stays in flight; the
  next call of \<^verbatim>\<open>loadHistory\<close> is not a no-op: it invokes the Git log once more and is
  suspended on the request.
\<close>

theorem failed_batch_fetch_leaves_loadHistory_free:
  "suspended awaiting_next_batch ! 0 = AwaitLoadNextHistoryBatch ''history/c2'' \<and>
   gitCalls (store (step awaiting_next_batch (GitSettles 0 (Inl (GitError ''fatal: bad revision''))))) =
     [(''HEAD'', 100), (''c2^'', 100)] \<and>
   ''history/c2'' \<in> requestsInFight
     (store (step awaiting_next_batch (GitSettles 0 (Inl (GitError ''fatal: bad revision''))))) \<and>
   gitCalls (store (step (step awaiting_next_batch
       (GitSettles 0 (Inl (GitError ''fatal: bad revision'')))) CallLoadHistory)) =
     [(''HEAD'', 100), (''c2^'', 100), (''HEAD'', 100)] \<and>
   suspended (step (step awaiting_next_batch
       (GitSettles 0 (Inl (GitError ''fatal: bad revision'')))) CallLoadHistory) =
     [AwaitLoadHistory]"
  by (simp add: run_defs loadHistory_resume_empty_history loadNextHistoryBatch_resume_failed
      example_batch_def example_commit_def Let_def)

theorem failed_fetch_key_never_removed_witness:
  "suspended awaiting_history ! 0 = AwaitLoadHistory \<and>
   LoadingHistoryRequestKey \<in> requestsInFight (store
     (run (step awaiting_history (GitSettles 0 (Inl (GitError ''fatal'')))) [CallLoadHistory])) \<and>
   gitCalls (store
     (run (step awaiting_history (GitSettles 0 (Inl (GitError ''fatal'')))) [CallLoadHistory])) =
     [(''HEAD'', 100)] \<and>
   suspended awaiting_next_batch ! 0 = AwaitLoadNextHistoryBatch ''history/c2'' \<and>
   ''history/c2'' \<in> requestsInFight (store
     (run (step awaiting_next_batch (GitSettles 0 (Inl (GitError ''fatal'')))) [CallLoadHistory]))"
proof -
  have h1: "awaiting_history = run initial_system [CallLoadHistory]"
    by (simp add: awaiting_history_def)
  have l1: "0 < length (suspended awaiting_history)"
    by (simp add: awaiting_history_eq)
  have a1: "suspended awaiting_history ! 0 = AwaitLoadHistory"
    by (simp add: awaiting_history_eq)
  have g1: "gitCalls (store (step awaiting_history (GitSettles 0 (Inl (GitError ''fatal''))))) =
      [(''HEAD'', 100)]"
    by (simp add: awaiting_history_eq loadHistory_resume_failed initial_store_def)
  have h2: "awaiting_next_batch = run initial_system
      [CallLoadHistory, GitSettles 0 (Inr example_batch), CallLoadNextHistoryBatch]"
    by (simp add: awaiting_next_batch_def)
  have l2: "0 < length (suspended awaiting_next_batch)"
    by (simp add: awaiting_next_batch_suspended)
  have a2: "suspended awaiting_next_batch ! 0 = AwaitLoadNextHistoryBatch ''history/c2''"
    by (simp add: awaiting_next_batch_suspended)
  from failed_fetch_key_never_removed [OF h1 l1 refl refl, where e = "GitError ''fatal''" and after = "[CallLoadHistory]"]
    failed_fetch_key_never_removed [OF h2 l2 refl refl, where e = "GitError ''fatal''" and after = "[CallLoadHistory]"]
    a1 a2 g1
  show ?thesis by simp
qed

section \<open>Properties of the repository catalog\<close>

subsection \<open>Collections\<close>

lemma wf_table_distinct: "wf_table t \<Longrightarrow> distinct (map fst (rows t))"
  by (simp add: wf_table_def strict_sorted_iff)

lemma tbl_get_Some_iff:
  "wf_table t \<Longrightarrow> tbl_get t k = Some v \<longleftrightarrow> (k, v) \<in> set (rows t)"
  using wf_table_distinct [of t] by (auto simp: tbl_get_def)

lemma tbl_get_None_iff: "tbl_get t k = None \<longleftrightarrow> k \<notin> fst ` set (rows t)"
  by (simp add: tbl_get_def map_of_eq_None_iff)

lemma tbl_get_bounds:
  "wf_table t \<Longrightarrow> tbl_get t k = Some v \<Longrightarrow> 0 < k \<and> k < nextID t"
  by (auto simp: wf_table_def tbl_get_def dest!: map_of_SomeD intro: rev_image_eqI)

lemma tbl_get_nextID: "wf_table t \<Longrightarrow> tbl_get t (nextID t) = None"
  by (auto simp: tbl_get_None_iff wf_table_def)

lemma tbl_add_fst: "fst (tbl_add row t) = nextID t"
  by (simp add: tbl_add_def)

lemma tbl_get_add:
  "wf_table t \<Longrightarrow>
   tbl_get (snd (tbl_add row t)) k = (if k = nextID t then Some row else tbl_get t k)"
  using tbl_get_nextID [of t]
  by (auto simp: tbl_add_def tbl_get_def map_add_def split: option.splits)

lemma wf_table_add: "wf_table t \<Longrightarrow> wf_table (snd (tbl_add row t))"
  by (auto simp: wf_table_def tbl_add_def sorted_wrt_append)

lemma keys_add: "map fst (rows (snd (tbl_add row t))) = map fst (rows t) @ [nextID t]"
  by (simp add: tbl_add_def)

lemma map_of_upsert: "map_of (upsert k v xs) = (map_of xs)(k \<mapsto> v)"
  by (induction xs) (auto simp: fun_eq_iff)

lemma keys_upsert:
  "sorted_wrt (<) (map fst xs) \<Longrightarrow> k \<in> fst ` set xs \<Longrightarrow> map fst (upsert k v xs) = map fst xs"
proof (induction xs)
  case Nil
  then show ?case by simp
next
  case (Cons x xs)
  obtain k' v' where x: "x = (k', v')" by (cases x)
  show ?case
  proof (cases "k = k'")
    case True
    with x show ?thesis by simp
  next
    case False
    with Cons.prems x have mem: "k \<in> fst ` set xs" by auto
    from Cons.prems(1) x have "\<forall>j \<in> fst ` set xs. k' < j" by auto
    with mem have "k' < k" by blast
    moreover from Cons.prems(1) have "sorted_wrt (<) (map fst xs)" by simp
    ultimately show ?thesis
      using Cons.IH mem x by simp
  qed
qed

lemma tbl_put_fst: "fst (tbl_put (Some k) row t) = k"
  by (simp add: tbl_put_def)

lemma tbl_get_put:
  "tbl_get (snd (tbl_put (Some k) row t)) = (tbl_get t)(k \<mapsto> row)"
  by (simp add: tbl_put_def tbl_get_def map_of_upsert fun_eq_iff)

lemma wf_table_put:
  assumes "wf_table t" and "tbl_get t k = Some old"
  shows "wf_table (snd (tbl_put (Some k) row t))"
    and "map fst (rows (snd (tbl_put (Some k) row t))) = map fst (rows t)"
    and "nextID (snd (tbl_put (Some k) row t)) = nextID t"
proof -
  have k: "k \<in> fst ` set (rows t)"
    using assms(2) by (metis tbl_get_None_iff option.distinct(1))
  have s: "sorted_wrt (<) (map fst (rows t))"
    using assms(1) by (simp add: wf_table_def)
  show keys: "map fst (rows (snd (tbl_put (Some k) row t))) = map fst (rows t)"
    by (simp add: tbl_put_def keys_upsert [OF s k])
  show n: "nextID (snd (tbl_put (Some k) row t)) = nextID t"
    using tbl_get_bounds [OF assms] by (simp add: tbl_put_def max_def)
  have "fst ` set (rows (snd (tbl_put (Some k) row t))) = fst ` set (rows t)"
    using keys by (metis set_map)
  with assms(1) keys n show "wf_table (snd (tbl_put (Some k) row t))"
    by (simp add: wf_table_def)
qed

lemma keys_update_rows:
  "map fst (map (\<lambda>(i, r). if i = k then (i, f r) else (i, r)) xs) = map fst xs"
  by (induction xs) auto

lemma keys_update: "map fst (rows (tbl_update k f t)) = map fst (rows t)"
  using keys_update_rows [of k f "rows t"] by (simp add: tbl_update_def)

lemma nextID_update: "nextID (tbl_update k f t) = nextID t"
  by (simp add: tbl_update_def)

lemma map_of_update_rows:
  "map_of (map (\<lambda>(i, r). if i = k then (i, f r) else (i, r)) xs) j =
     (if j = k then map_option f (map_of xs k) else map_of xs j)"
  by (induction xs) auto

lemma tbl_get_update:
  "tbl_get (tbl_update k f t) j = (if j = k then map_option f (tbl_get t k) else tbl_get t j)"
  by (simp add: tbl_update_def tbl_get_def map_of_update_rows)

lemma key_set_update: "fst ` set (rows (tbl_update k f t)) = fst ` set (rows t)"
proof -
  have "set (map fst (rows (tbl_update k f t))) = set (map fst (rows t))"
    by (simp only: keys_update)
  then show ?thesis by (simp only: set_map)
qed

lemma wf_table_update: "wf_table t \<Longrightarrow> wf_table (tbl_update k f t)"
  by (simp add: wf_table_def nextID_update keys_update key_set_update)

subsection \<open>Looking an owner up by login\<close>

lemma equalsIgnoreCase_trans:
  "equalsIgnoreCase lower a b \<Longrightarrow> equalsIgnoreCase lower b c \<Longrightarrow> equalsIgnoreCase lower a c"
  and equalsIgnoreCase_sym: "equalsIgnoreCase lower a b \<Longrightarrow> equalsIgnoreCase lower b a"
  and equalsIgnoreCase_refl: "equalsIgnoreCase lower a a"
  by (simp_all add: equalsIgnoreCase_def)

lemma firstInLoginIndex_None: "firstInLoginIndex xs = None \<longleftrightarrow> xs = []"
  by (induction xs) (auto split: option.splits)

lemma firstInLoginIndex_mem: "firstInLoginIndex xs = Some y \<Longrightarrow> y \<in> set xs"
  by (induction xs arbitrary: y) (auto split: option.splits if_splits)

lemma firstOwnerByLogin_cong:
  "equalsIgnoreCase lower l l' \<Longrightarrow> firstOwnerByLogin lower l t = firstOwnerByLogin lower l' t"
  by (simp add: firstOwnerByLogin_def equalsIgnoreCase_def)

lemma firstOwnerByLogin_Some:
  assumes "wf_table t" and "firstOwnerByLogin lower l t = Some e"
  shows "tbl_get t (fst e) = Some (snd e) \<and> equalsIgnoreCase lower (login (snd e)) l"
proof -
  from assms(2) have "e \<in> set (filter (\<lambda>(i, ow). equalsIgnoreCase lower (login ow) l) (rows t))"
    unfolding firstOwnerByLogin_def by (rule firstInLoginIndex_mem)
  then have "(fst e, snd e) \<in> set (rows t)" "equalsIgnoreCase lower (login (snd e)) l"
    by (auto simp: case_prod_beta)
  with assms(1) show ?thesis
    by (simp add: tbl_get_Some_iff)
qed

lemma firstOwnerByLogin_None:
  "firstOwnerByLogin lower l t = None \<longleftrightarrow>
     (\<forall>e \<in> set (rows t). \<not> equalsIgnoreCase lower (login (snd e)) l)"
  by (auto simp: firstOwnerByLogin_def firstInLoginIndex_None filter_empty_conv)

lemma firstOwnerByLogin_added:
  assumes "firstOwnerByLogin lower l t = None" and "equalsIgnoreCase lower (login row) l"
  shows "firstOwnerByLogin lower l (snd (tbl_add row t)) = Some (nextID t, row)"
proof -
  have "filter (\<lambda>(i, ow). equalsIgnoreCase lower (login ow) l) (rows t) = []"
    using assms(1) by (simp add: firstOwnerByLogin_def firstInLoginIndex_None)
  with assms(2) show ?thesis
    by (simp add: firstOwnerByLogin_def tbl_add_def)
qed

lemma ensureOwner_found:
  "firstOwnerByLogin lower (getLogin ow) t = Some e \<Longrightarrow> ensureOwner lower ow t = (fst e, t)"
  by (simp add: ensureOwner_def)

lemma ensureOwner_added:
  "firstOwnerByLogin lower (getLogin ow) t = None \<Longrightarrow>
   ensureOwner lower ow t = tbl_add \<lparr>login = getLogin ow, endpoint = getEndpoint ow\<rparr> t"
  by (simp add: ensureOwner_def)

lemma wf_table_ensureOwner: "wf_table t \<Longrightarrow> wf_table (snd (ensureOwner lower ow t))"
  by (cases "firstOwnerByLogin lower (getLogin ow) t")
     (simp_all add: ensureOwner_def wf_table_add)

lemma tbl_get_ensureOwner_mono:
  assumes "wf_table t" and "tbl_get t k \<noteq> None"
  shows "tbl_get (snd (ensureOwner lower ow t)) k = tbl_get t k"
proof (cases "firstOwnerByLogin lower (getLogin ow) t")
  case None
  from assms have "k \<noteq> nextID t"
    using tbl_get_nextID [OF assms(1)] by auto
  with None assms(1) show ?thesis
    by (simp add: ensureOwner_added tbl_get_add)
next
  case (Some e)
  then show ?thesis by (simp add: ensureOwner_found)
qed

lemma ensureOwner_row:
  assumes "wf_table t"
  shows "\<exists>row. tbl_get (snd (ensureOwner lower ow t)) (fst (ensureOwner lower ow t)) = Some row \<and>
           equalsIgnoreCase lower (login row) (getLogin ow) \<and>
           row = (case firstOwnerByLogin lower (getLogin ow) t of
                    None \<Rightarrow> \<lparr>login = getLogin ow, endpoint = getEndpoint ow\<rparr>
                  | Some e \<Rightarrow> snd e)"
proof (cases "firstOwnerByLogin lower (getLogin ow) t")
  case None
  with assms show ?thesis
    by (simp add: ensureOwner_added tbl_get_add tbl_add_fst equalsIgnoreCase_refl)
next
  case (Some e)
  with firstOwnerByLogin_Some [OF assms Some] show ?thesis
    by (simp add: ensureOwner_found)
qed

lemma ensureOwner_again:
  assumes "wf_table t" and "equalsIgnoreCase lower (getLogin ow) (getLogin ow')"
  shows "ensureOwner lower ow' (snd (ensureOwner lower ow t)) = ensureOwner lower ow t"
proof (cases "firstOwnerByLogin lower (getLogin ow) t")
  case None
  have "equalsIgnoreCase lower (login \<lparr>login = getLogin ow, endpoint = getEndpoint ow\<rparr>) (getLogin ow')"
    using assms(2) by simp
  moreover have "firstOwnerByLogin lower (getLogin ow') t = None"
    using None firstOwnerByLogin_cong [OF assms(2), of t] by simp
  ultimately have "firstOwnerByLogin lower (getLogin ow')
      (snd (tbl_add \<lparr>login = getLogin ow, endpoint = getEndpoint ow\<rparr> t)) =
      Some (nextID t, \<lparr>login = getLogin ow, endpoint = getEndpoint ow\<rparr>)"
    by (intro firstOwnerByLogin_added)
  with None show ?thesis
    by (simp add: ensureOwner_added ensureOwner_found tbl_add_def)
next
  case (Some e)
  then have "firstOwnerByLogin lower (getLogin ow') t = Some e"
    using firstOwnerByLogin_cong [OF assms(2), of t] by simp
  with Some show ?thesis
    by (simp add: ensureOwner_found)
qed

subsection \<open>What updateGitHubRepository writes\<close>

lemma truthyID_Some: "truthyID x = Some n \<longleftrightarrow> x = Some n \<and> n \<noteq> 0"
  by (auto simp: truthyID_def split: option.splits)

lemma truthyID_positive: "0 < n \<Longrightarrow> truthyID (Some n) = Some n"
  by (simp add: truthyID_def)

lemma updateGitHubRepository_linked:
  assumes "truthyID (getID r) = Some i" and "getGitHubRepository r = Some p"
    and "tbl_get (repositories db) i = Some lr"
    and "truthyID (gitHubRepositoryID lr) = Some g"
    and "tbl_get (gitHubRepositories db) g = Some ex"
    and "tbl_get (owners db) (ownerID ex) = Some ow"
  shows "updateGitHubRepository lower r db =
     (Inr (),
      \<lparr>repositories = tbl_update i (\<lambda>r. r\<lparr>gitHubRepositoryID := Some g\<rparr>) (repositories db),
       gitHubRepositories =
         snd (tbl_put (Some g) (gitHubRepositoryInfo (ownerID ex) p) (gitHubRepositories db)),
       owners = owners db,
       transactions =
         transactions db @ [(ReadWrite, [Repositories, GitHubRepositories, Owners])]\<rparr>)"
  using assms
  by (simp add: updateGitHubRepository_def transaction_def updateGitHubRepository_scope_def
      resolveOwner_def Let_def tbl_put_def)

lemma updateGitHubRepository_unlinked:
  assumes "truthyID (getID r) = Some i" and "getGitHubRepository r = Some p"
    and "tbl_get (repositories db) i = Some lr"
    and "truthyID (gitHubRepositoryID lr) = None"
  shows "updateGitHubRepository lower r db =
     (Inr (),
      \<lparr>repositories =
         tbl_update i (\<lambda>r. r\<lparr>gitHubRepositoryID := Some (nextID (gitHubRepositories db))\<rparr>)
           (repositories db),
       gitHubRepositories =
         snd (tbl_add (gitHubRepositoryInfo (fst (ensureOwner lower (getOwner p) (owners db))) p)
                (gitHubRepositories db)),
       owners = snd (ensureOwner lower (getOwner p) (owners db)),
       transactions =
         transactions db @ [(ReadWrite, [Repositories, GitHubRepositories, Owners])]\<rparr>)"
  using assms
  by (simp add: updateGitHubRepository_def transaction_def updateGitHubRepository_scope_def
      resolveOwner_def Let_def tbl_put_def tbl_add_def split: prod.splits)

lemma wf_database_linked:
  assumes wf: "wf_database db"
    and lr: "tbl_get (repositories db) i = Some lr"
    and g: "truthyID (gitHubRepositoryID lr) = Some g"
    and ex: "tbl_get (gitHubRepositories db) g = Some ex"
  shows "wf_database
     \<lparr>repositories = tbl_update i (\<lambda>r. r\<lparr>gitHubRepositoryID := Some g\<rparr>) (repositories db),
      gitHubRepositories =
        snd (tbl_put (Some g) (gitHubRepositoryInfo (ownerID ex) p) (gitHubRepositories db)),
      owners = owners db,
      transactions = ts\<rparr>"
proof -
  from wf have t: "wf_table (repositories db)" "wf_table (gitHubRepositories db)"
      "wf_table (owners db)"
    and ref1: "\<And>j r h. tbl_get (repositories db) j = Some r \<Longrightarrow>
        truthyID (gitHubRepositoryID r) = Some h \<Longrightarrow> tbl_get (gitHubRepositories db) h \<noteq> None"
    and ref2: "\<And>h gh. tbl_get (gitHubRepositories db) h = Some gh \<Longrightarrow>
        tbl_get (owners db) (ownerID gh) \<noteq> None"
    by (auto simp: wf_database_def)
  have g0: "g \<noteq> 0" using g by (simp add: truthyID_Some)
  have a: "wf_table (tbl_update i (\<lambda>r. r\<lparr>gitHubRepositoryID := Some g\<rparr>) (repositories db))"
    using t(1) by (rule wf_table_update)
  have b: "wf_table (snd (tbl_put (Some g) (gitHubRepositoryInfo (ownerID ex) p)
      (gitHubRepositories db)))"
    using t(2) ex by (rule wf_table_put)
  have c: "tbl_get (snd (tbl_put (Some g) (gitHubRepositoryInfo (ownerID ex) p)
        (gitHubRepositories db))) h \<noteq> None"
    if "tbl_get (tbl_update i (\<lambda>r. r\<lparr>gitHubRepositoryID := Some g\<rparr>) (repositories db)) j = Some r"
      and "truthyID (gitHubRepositoryID r) = Some h" for j r h
    using that ref1 [of j r h] lr
    by (auto simp: tbl_get_update tbl_get_put truthyID_Some split: if_splits)
  have d: "tbl_get (owners db) (ownerID gh) \<noteq> None"
    if "tbl_get (snd (tbl_put (Some g) (gitHubRepositoryInfo (ownerID ex) p)
        (gitHubRepositories db))) h = Some gh" for h gh
    using that ref2 [of h gh] ref2 [OF ex]
    by (auto simp: tbl_get_put gitHubRepositoryInfo_def split: if_splits)
  from a b t(3) c d show ?thesis
    unfolding wf_database_def by (simp del: not_None_eq)
qed

lemma wf_database_unlinked:
  assumes wf: "wf_database db"
    and lr: "tbl_get (repositories db) i = Some lr"
  shows "wf_database
     \<lparr>repositories =
        tbl_update i (\<lambda>r. r\<lparr>gitHubRepositoryID := Some (nextID (gitHubRepositories db))\<rparr>)
          (repositories db),
      gitHubRepositories =
        snd (tbl_add (gitHubRepositoryInfo (fst (ensureOwner lower ow (owners db))) p)
               (gitHubRepositories db)),
      owners = snd (ensureOwner lower ow (owners db)),
      transactions = ts\<rparr>"
proof -
  from wf have t: "wf_table (repositories db)" "wf_table (gitHubRepositories db)"
      "wf_table (owners db)"
    and ref1: "\<And>j r h. tbl_get (repositories db) j = Some r \<Longrightarrow>
        truthyID (gitHubRepositoryID r) = Some h \<Longrightarrow> tbl_get (gitHubRepositories db) h \<noteq> None"
    and ref2: "\<And>h gh. tbl_get (gitHubRepositories db) h = Some gh \<Longrightarrow>
        tbl_get (owners db) (ownerID gh) \<noteq> None"
    by (auto simp: wf_database_def)
  let ?g = "nextID (gitHubRepositories db)"
  let ?o = "fst (ensureOwner lower ow (owners db))"
  let ?owners = "snd (ensureOwner lower ow (owners db))"
  let ?ghs = "snd (tbl_add (gitHubRepositoryInfo ?o p) (gitHubRepositories db))"
  let ?repos = "tbl_update i (\<lambda>r. r\<lparr>gitHubRepositoryID := Some ?g\<rparr>) (repositories db)"
  have a: "wf_table ?repos" using t(1) by (rule wf_table_update)
  have b: "wf_table ?ghs" using t(2) by (rule wf_table_add)
  have c: "wf_table ?owners" using t(3) by (rule wf_table_ensureOwner)
  have d: "tbl_get ?ghs h \<noteq> None"
    if "tbl_get ?repos j = Some r" and "truthyID (gitHubRepositoryID r) = Some h" for j r h
    using that ref1 [of j r h] lr t(2)
    by (auto simp: tbl_get_update tbl_get_add truthyID_Some split: if_splits)
  obtain row where row: "tbl_get ?owners ?o = Some row"
    using ensureOwner_row [OF t(3), where ow = ow and lower = lower] by blast
  have e: "tbl_get ?owners (ownerID gh) \<noteq> None" if "tbl_get ?ghs h = Some gh" for h gh
  proof (cases "h = ?g")
    case True
    with that t(2) have "gh = gitHubRepositoryInfo ?o p"
      by (simp add: tbl_get_add)
    with row show ?thesis by (simp add: gitHubRepositoryInfo_def)
  next
    case False
    with that t(2) have "tbl_get (gitHubRepositories db) h = Some gh"
      by (simp add: tbl_get_add)
    from ref2 [OF this] show ?thesis
      using t(3) by (simp add: tbl_get_ensureOwner_mono)
  qed
  from a b c d e show ?thesis
    unfolding wf_database_def by (simp del: not_None_eq)
qed

subsection \<open>One call of updateGitHubRepository on a well-formed datastore\<close>

lemma linked_rows:
  assumes "wf_database db" and "linkedGitHubRepositoryID i db = Some g"
  obtains lr ex ow where "tbl_get (repositories db) i = Some lr"
    and "truthyID (gitHubRepositoryID lr) = Some g"
    and "tbl_get (gitHubRepositories db) g = Some ex"
    and "tbl_get (owners db) (ownerID ex) = Some ow"
    and "linkedOwnerID i db = Some (ownerID ex)"
proof -
  from assms(2) obtain lr where lr: "tbl_get (repositories db) i = Some lr"
    "truthyID (gitHubRepositoryID lr) = Some g"
    by (auto simp: linkedGitHubRepositoryID_def split: option.splits)
  with assms(1) obtain ex where ex: "tbl_get (gitHubRepositories db) g = Some ex"
    unfolding wf_database_def by (metis option.exhaust)
  with assms(1) obtain ow where ow: "tbl_get (owners db) (ownerID ex) = Some ow"
    unfolding wf_database_def by (metis option.exhaust)
  have "linkedOwnerID i db = Some (ownerID ex)"
    using assms(2) ex by (simp add: linkedOwnerID_def)
  with lr ex ow show ?thesis by (rule that)
qed

lemma update_step_linked:
  assumes wf: "wf_database db"
    and i: "truthyID (getID r) = Some i" and p: "getGitHubRepository r = Some p"
    and g: "linkedGitHubRepositoryID i db = Some g"
  shows "\<exists>db' ownr.
           updateGitHubRepository lower r db = (Inr (), db') \<and> wf_database db' \<and>
           linkedGitHubRepositoryID i db' = Some g \<and>
           linkedOwnerID i db = Some ownr \<and> linkedOwnerID i db' = Some ownr \<and>
           tbl_get (gitHubRepositories db') g = Some (gitHubRepositoryInfo ownr p) \<and>
           owners db' = owners db \<and>
           map fst (rows (repositories db')) = map fst (rows (repositories db)) \<and>
           map_option path (tbl_get (repositories db') i) =
             map_option path (tbl_get (repositories db) i)"
proof -
  from wf g obtain lr ex ow where rows: "tbl_get (repositories db) i = Some lr"
    "truthyID (gitHubRepositoryID lr) = Some g"
    "tbl_get (gitHubRepositories db) g = Some ex"
    "tbl_get (owners db) (ownerID ex) = Some ow"
    and lo: "linkedOwnerID i db = Some (ownerID ex)"
    by (rule linked_rows)
  let ?db' = "\<lparr>repositories = tbl_update i (\<lambda>r. r\<lparr>gitHubRepositoryID := Some g\<rparr>) (repositories db),
       gitHubRepositories =
         snd (tbl_put (Some g) (gitHubRepositoryInfo (ownerID ex) p) (gitHubRepositories db)),
       owners = owners db,
       transactions =
         transactions db @ [(ReadWrite, [Repositories, GitHubRepositories, Owners])]\<rparr>"
  have run: "updateGitHubRepository lower r db = (Inr (), ?db')"
    using i p rows by (rule updateGitHubRepository_linked)
  have wf': "wf_database ?db'"
    using wf rows(1,2,3) by (rule wf_database_linked)
  have link: "linkedGitHubRepositoryID i ?db' = Some g"
    using rows(1,2) by (simp add: linkedGitHubRepositoryID_def tbl_get_update truthyID_Some)
  have gh: "tbl_get (gitHubRepositories ?db') g = Some (gitHubRepositoryInfo (ownerID ex) p)"
    by (simp add: tbl_get_put)
  have own: "linkedOwnerID i ?db' = Some (ownerID ex)"
    using link gh by (simp add: linkedOwnerID_def gitHubRepositoryInfo_def)
  have pth: "map_option path (tbl_get (repositories ?db') i) =
      map_option path (tbl_get (repositories db) i)"
    using rows(1) by (simp add: tbl_get_update)
  from run wf' link lo own gh pth show ?thesis
    by (simp add: keys_update)
qed

lemma update_step_unlinked:
  assumes wf: "wf_database db"
    and i: "truthyID (getID r) = Some i" and p: "getGitHubRepository r = Some p"
    and lr: "tbl_get (repositories db) i = Some lr"
    and un: "linkedGitHubRepositoryID i db = None"
  shows "\<exists>db'.
           updateGitHubRepository lower r db = (Inr (), db') \<and> wf_database db' \<and>
           linkedGitHubRepositoryID i db' = Some (nextID (gitHubRepositories db)) \<and>
           linkedOwnerID i db' = Some (fst (ensureOwner lower (getOwner p) (owners db))) \<and>
           tbl_get (gitHubRepositories db') (nextID (gitHubRepositories db)) =
             Some (gitHubRepositoryInfo (fst (ensureOwner lower (getOwner p) (owners db))) p) \<and>
           owners db' = snd (ensureOwner lower (getOwner p) (owners db)) \<and>
           map fst (rows (repositories db')) = map fst (rows (repositories db)) \<and>
           map_option path (tbl_get (repositories db') i) =
             map_option path (tbl_get (repositories db) i) \<and>
           (\<forall>j. j \<noteq> i \<longrightarrow> tbl_get (repositories db') j = tbl_get (repositories db) j) \<and>
           (\<forall>h. h \<noteq> nextID (gitHubRepositories db) \<longrightarrow>
              tbl_get (gitHubRepositories db') h = tbl_get (gitHubRepositories db) h)"
proof -
  let ?g = "nextID (gitHubRepositories db)"
  let ?o = "fst (ensureOwner lower (getOwner p) (owners db))"
  let ?db' = "\<lparr>repositories =
         tbl_update i (\<lambda>r. r\<lparr>gitHubRepositoryID := Some ?g\<rparr>) (repositories db),
       gitHubRepositories =
         snd (tbl_add (gitHubRepositoryInfo ?o p) (gitHubRepositories db)),
       owners = snd (ensureOwner lower (getOwner p) (owners db)),
       transactions =
         transactions db @ [(ReadWrite, [Repositories, GitHubRepositories, Owners])]\<rparr>"
  from wf have t: "wf_table (gitHubRepositories db)"
    by (simp add: wf_database_def)
  then have g0: "0 < ?g" by (simp add: wf_table_def)
  from un lr have un': "truthyID (gitHubRepositoryID lr) = None"
    by (simp add: linkedGitHubRepositoryID_def)
  have run: "updateGitHubRepository lower r db = (Inr (), ?db')"
    using i p lr un' by (rule updateGitHubRepository_unlinked)
  have wf': "wf_database ?db'"
    using wf lr by (rule wf_database_unlinked)
  have link: "linkedGitHubRepositoryID i ?db' = Some ?g"
    using lr g0 by (simp add: linkedGitHubRepositoryID_def tbl_get_update truthyID_def)
  have gh: "tbl_get (gitHubRepositories ?db') ?g = Some (gitHubRepositoryInfo ?o p)"
    using t by (simp add: tbl_get_add)
  have own: "linkedOwnerID i ?db' = Some ?o"
    using link gh by (simp add: linkedOwnerID_def gitHubRepositoryInfo_def)
  have pth: "map_option path (tbl_get (repositories ?db') i) =
      map_option path (tbl_get (repositories db) i)"
    using lr by (simp add: tbl_get_update)
  have frame1: "\<forall>j. j \<noteq> i \<longrightarrow> tbl_get (repositories ?db') j = tbl_get (repositories db) j"
    by (simp add: tbl_get_update)
  have frame2: "\<forall>h. h \<noteq> ?g \<longrightarrow>
      tbl_get (gitHubRepositories ?db') h = tbl_get (gitHubRepositories db) h"
    using t by (simp add: tbl_get_add)
  from run wf' link own gh pth frame1 frame2 show ?thesis
    by (simp add: keys_update)
qed

subsection \<open>addRepository and getRepositories on a well-formed datastore\<close>

lemma wf_database_inserted:
  assumes "wf_database db"
  shows "wf_database
     (db\<lparr>transactions := ts,
         repositories := snd (tbl_add \<lparr>path = pth, gitHubRepositoryID = None\<rparr> (repositories db))\<rparr>)"
proof -
  from assms have t: "wf_table (repositories db)"
    by (simp add: wf_database_def)
  have "truthyID (gitHubRepositoryID r) = Some g \<Longrightarrow>
      tbl_get (gitHubRepositories db) g \<noteq> None"
    if "tbl_get (snd (tbl_add \<lparr>path = pth, gitHubRepositoryID = None\<rparr> (repositories db))) j =
        Some r" for j r g
    using that assms t
    by (auto simp: tbl_get_add wf_database_def truthyID_def split: if_splits)
  with assms t show ?thesis
    unfolding wf_database_def by (simp add: wf_table_add del: not_None_eq)
qed

lemma addRepository_unfolded:
  "addRepository lower x db =
     (let i = nextID (repositories db);
          db1 = db\<lparr>transactions := transactions db @ [(ReadWrite, [Repositories])],
                   repositories :=
                     snd (tbl_add \<lparr>path = getPath x, gitHubRepositoryID = None\<rparr> (repositories db))\<rparr>
      in case getGitHubRepository x of
           None \<Rightarrow> (Inr (withID i x), db1)
         | Some p \<Rightarrow>
             (case updateGitHubRepository lower (withID i x) db1 of
                (Inl e, db2) \<Rightarrow> (Inl e, db2)
              | (Inr u, db2) \<Rightarrow> (Inr (withID i x), db2)))"
  by (simp add: addRepository_def transaction_def tbl_add_def Let_def split: option.splits)

lemma addRepository_wf:
  assumes wf: "wf_database db"
  shows "\<exists>db1. addRepository lower x db = (Inr (withID (nextID (repositories db)) x), db1) \<and>
           wf_database db1 \<and>
           map fst (rows (repositories db1)) =
             map fst (rows (repositories db)) @ [nextID (repositories db)] \<and>
           map_option path (tbl_get (repositories db1) (nextID (repositories db))) =
             Some (getPath x) \<and>
           (case getGitHubRepository x of
              None \<Rightarrow> linkedGitHubRepositoryID (nextID (repositories db)) db1 = None
            | Some p \<Rightarrow>
                linkedGitHubRepositoryID (nextID (repositories db)) db1 =
                  Some (nextID (gitHubRepositories db)) \<and>
                linkedOwnerID (nextID (repositories db)) db1 =
                  Some (fst (ensureOwner lower (getOwner p) (owners db))) \<and>
                tbl_get (gitHubRepositories db1) (nextID (gitHubRepositories db)) =
                  Some (gitHubRepositoryInfo (fst (ensureOwner lower (getOwner p) (owners db))) p) \<and>
                owners db1 = snd (ensureOwner lower (getOwner p) (owners db)))"
proof -
  let ?i = "nextID (repositories db)"
  let ?row = "\<lparr>path = getPath x, gitHubRepositoryID = None\<rparr>"
  let ?db1 = "db\<lparr>transactions := transactions db @ [(ReadWrite, [Repositories])],
                  repositories := snd (tbl_add ?row (repositories db))\<rparr>"
  from wf have t: "wf_table (repositories db)"
    by (simp add: wf_database_def)
  then have i0: "0 < ?i" by (simp add: wf_table_def)
  have wf1: "wf_database ?db1" using wf by (rule wf_database_inserted)
  have row: "tbl_get (repositories ?db1) ?i = Some ?row"
    using t by (simp add: tbl_get_add)
  have keys: "map fst (rows (repositories ?db1)) = map fst (rows (repositories db)) @ [?i]"
    by (simp add: keys_add)
  have un: "linkedGitHubRepositoryID ?i ?db1 = None"
    using row by (simp add: linkedGitHubRepositoryID_def truthyID_def)
  show ?thesis
  proof (cases "getGitHubRepository x")
    case None
    with wf1 row keys un show ?thesis
      by (simp add: addRepository_unfolded Let_def)
  next
    case (Some p)
    have id: "truthyID (getID (withID ?i x)) = Some ?i"
      using i0 by (simp add: withID_def truthyID_def)
    have pl: "getGitHubRepository (withID ?i x) = Some p"
      using Some by (simp add: withID_def)
    from update_step_unlinked [OF wf1 id pl row un, where lower = lower] obtain db2 where
      db2: "updateGitHubRepository lower (withID ?i x) ?db1 = (Inr (), db2)" "wf_database db2"
        "linkedGitHubRepositoryID ?i db2 = Some (nextID (gitHubRepositories ?db1))"
        "linkedOwnerID ?i db2 = Some (fst (ensureOwner lower (getOwner p) (owners ?db1)))"
        "tbl_get (gitHubRepositories db2) (nextID (gitHubRepositories ?db1)) =
           Some (gitHubRepositoryInfo (fst (ensureOwner lower (getOwner p) (owners ?db1))) p)"
        "owners db2 = snd (ensureOwner lower (getOwner p) (owners ?db1))"
        "map fst (rows (repositories db2)) = map fst (rows (repositories ?db1))"
        "map_option path (tbl_get (repositories db2) ?i) =
           map_option path (tbl_get (repositories ?db1) ?i)"
      by blast
    have "addRepository lower x db = (Inr (withID ?i x), db2)"
      using Some db2(1) by (simp add: addRepository_unfolded Let_def)
    with db2(2-8) row keys Some show ?thesis
      by simp
  qed
qed

lemma inflateAll_map:
  "\<forall>x \<in> set xs. inflate db x = Inr (f x) \<Longrightarrow> inflateAll db xs = Inr (map f xs)"
  by (induction xs) simp_all

lemma inflate_wf:
  assumes wf: "wf_database db" and row: "tbl_get (repositories db) i = Some r"
  shows "\<exists>e. inflate db (i, r) = Inr e \<and> getPath e = path r \<and> getID e = Some i \<and>
           getGitHubRepository e =
             (case linkedGitHubRepositoryID i db of
                None \<Rightarrow> None
              | Some g \<Rightarrow>
                  (case tbl_get (gitHubRepositories db) g of
                     None \<Rightarrow> None
                   | Some gh \<Rightarrow>
                       (case tbl_get (owners db) (ownerID gh) of
                          None \<Rightarrow> None
                        | Some ow \<Rightarrow>
                            Some \<lparr>getName = name gh,
                                  getOwner = \<lparr>getLogin = login ow, getEndpoint = endpoint ow\<rparr>,
                                  getPrivate = isPrivate gh, getFork = fork gh,
                                  getHTMLURL = htmlURL gh\<rparr>)))"
proof (cases "linkedGitHubRepositoryID i db")
  case None
  with row show ?thesis
    by (simp add: inflate_def linkedGitHubRepositoryID_def)
next
  case (Some g)
  from wf Some obtain lr ex ow where "tbl_get (repositories db) i = Some lr"
    "truthyID (gitHubRepositoryID lr) = Some g"
    "tbl_get (gitHubRepositories db) g = Some ex"
    "tbl_get (owners db) (ownerID ex) = Some ow"
    by (rule linked_rows)
  with row Some show ?thesis
    by (simp add: inflate_def Let_def)
qed

lemma getRepositories_wf:
  assumes wf: "wf_database db" and row: "tbl_get (repositories db) i = Some r"
  shows "\<exists>rs db' e. getRepositories db = (Inr rs, db') \<and> e \<in> set rs \<and>
           inflate db (i, r) = Inr e"
proof -
  from wf have t: "wf_table (repositories db)"
    by (simp add: wf_database_def)
  let ?db0 = "db\<lparr>transactions := transactions db @
      [(ReadOnly, [Repositories, GitHubRepositories, Owners])]\<rparr>"
  have same: "inflate ?db0 x = inflate db x" for x
    by (simp add: inflate_def cong: option.case_cong)
  let ?f = "\<lambda>x. case inflate db x of Inr e \<Rightarrow> e | Inl err \<Rightarrow> undefined"
  have "inflate db x = Inr (?f x)" if "x \<in> set (rows (repositories db))" for x
  proof -
    from that t have "tbl_get (repositories db) (fst x) = Some (snd x)"
      by (simp add: tbl_get_Some_iff)
    from inflate_wf [OF wf this] show ?thesis by auto
  qed
  then have all: "inflateAll ?db0 (rows (repositories db)) = Inr (map ?f (rows (repositories db)))"
    by (intro inflateAll_map) (simp add: same)
  have mem: "(i, r) \<in> set (rows (repositories db))"
    using row t by (simp add: tbl_get_Some_iff)
  obtain e where e: "inflate db (i, r) = Inr e"
    using inflate_wf [OF wf row] by blast
  then have "e \<in> set (map ?f (rows (repositories db)))"
    using mem by force
  with all e show ?thesis
    by (simp add: getRepositories_def transaction_def toArray_def Let_def)
qed

text \<open>
  Claim C5, as amended. On a well-formed datastore, \<^verbatim>\<open>addRepository(x)\<close> returns \<open>x\<close>
  with the identifier assigned at insert, and \<^verbatim>\<open>getRepositories\<close> then succeeds with a
  sequence containing an entry with \<open>x\<close>'s path and that identifier. If \<open>x\<close> carried no
  remote metadata, neither does the entry. If it did, the entry's name, visibility, fork
  flag and html URL are those of \<open>x\<close>, and its owner is \<open>x\<close>'s owner when no stored owner
  has the same login up to case; otherwise it is the stored owner that the
  case-insensitive lookup by login finds, whose login equals \<open>x\<close>'s up to case and whose
  letter case and endpoint are the stored ones. Equal up to case means equal once folded
  by \<open>lower\<close>, which is any folding at all and so the runtime's \<^verbatim>\<open>toLowerCase\<close> in
  particular.
\<close>

theorem addRepository_round_trip:
  assumes wf: "wf_database db"
  shows "\<exists>db1 rs db2 e.
           addRepository lower x db = (Inr (withID (nextID (repositories db)) x), db1) \<and>
           getRepositories db1 = (Inr rs, db2) \<and>
           e \<in> set rs \<and> getPath e = getPath x \<and> getID e = Some (nextID (repositories db)) \<and>
           (case getGitHubRepository x of
              None \<Rightarrow> getGitHubRepository e = None
            | Some p \<Rightarrow>
                (\<exists>p'. getGitHubRepository e = Some p' \<and>
                   getName p' = getName p \<and> getPrivate p' = getPrivate p \<and>
                   getFork p' = getFork p \<and> getHTMLURL p' = getHTMLURL p \<and>
                   equalsIgnoreCase lower (getLogin (getOwner p')) (getLogin (getOwner p)) \<and>
                   getOwner p' =
                     (case firstOwnerByLogin lower (getLogin (getOwner p)) (owners db) of
                        None \<Rightarrow> getOwner p
                      | Some existingOwner \<Rightarrow>
                          \<lparr>getLogin = login (snd existingOwner),
                           getEndpoint = endpoint (snd existingOwner)\<rparr>)))"
proof -
  let ?i = "nextID (repositories db)"
  from addRepository_wf [OF wf, where x = x and lower = lower] obtain db1 where
    add: "addRepository lower x db = (Inr (withID ?i x), db1)" and wf1: "wf_database db1"
    and pth: "map_option path (tbl_get (repositories db1) ?i) = Some (getPath x)"
    and link: "(case getGitHubRepository x of
              None \<Rightarrow> linkedGitHubRepositoryID ?i db1 = None
            | Some p \<Rightarrow>
                linkedGitHubRepositoryID ?i db1 = Some (nextID (gitHubRepositories db)) \<and>
                linkedOwnerID ?i db1 = Some (fst (ensureOwner lower (getOwner p) (owners db))) \<and>
                tbl_get (gitHubRepositories db1) (nextID (gitHubRepositories db)) =
                  Some (gitHubRepositoryInfo (fst (ensureOwner lower (getOwner p) (owners db))) p) \<and>
                owners db1 = snd (ensureOwner lower (getOwner p) (owners db)))"
    by blast
  from pth obtain r where r: "tbl_get (repositories db1) ?i = Some r" "path r = getPath x"
    by auto
  from getRepositories_wf [OF wf1 r(1)] obtain rs db2 e where
    list: "getRepositories db1 = (Inr rs, db2)" "e \<in> set rs" "inflate db1 (?i, r) = Inr e"
    by blast
  from inflate_wf [OF wf1 r(1)] list(3) have e: "getPath e = getPath x" "getID e = Some ?i"
    "getGitHubRepository e =
       (case linkedGitHubRepositoryID ?i db1 of
          None \<Rightarrow> None
        | Some g \<Rightarrow>
            (case tbl_get (gitHubRepositories db1) g of
               None \<Rightarrow> None
             | Some gh \<Rightarrow>
                 (case tbl_get (owners db1) (ownerID gh) of
                    None \<Rightarrow> None
                  | Some ow \<Rightarrow>
                      Some \<lparr>getName = name gh,
                            getOwner = \<lparr>getLogin = login ow, getEndpoint = endpoint ow\<rparr>,
                            getPrivate = isPrivate gh, getFork = fork gh,
                            getHTMLURL = htmlURL gh\<rparr>)))"
    using r(2) by auto
  have remote: "(case getGitHubRepository x of
              None \<Rightarrow> getGitHubRepository e = None
            | Some p \<Rightarrow>
                (\<exists>p'. getGitHubRepository e = Some p' \<and>
                   getName p' = getName p \<and> getPrivate p' = getPrivate p \<and>
                   getFork p' = getFork p \<and> getHTMLURL p' = getHTMLURL p \<and>
                   equalsIgnoreCase lower (getLogin (getOwner p')) (getLogin (getOwner p)) \<and>
                   getOwner p' =
                     (case firstOwnerByLogin lower (getLogin (getOwner p)) (owners db) of
                        None \<Rightarrow> getOwner p
                      | Some existingOwner \<Rightarrow>
                          \<lparr>getLogin = login (snd existingOwner),
                           getEndpoint = endpoint (snd existingOwner)\<rparr>)))"
  proof (cases "getGitHubRepository x")
    case None
    with link e(3) show ?thesis by simp
  next
    case (Some p)
    from wf have t: "wf_table (owners db)" by (simp add: wf_database_def)
    from ensureOwner_row [OF t, where ow = "getOwner p" and lower = lower] obtain row where
      row: "tbl_get (snd (ensureOwner lower (getOwner p) (owners db)))
              (fst (ensureOwner lower (getOwner p) (owners db))) = Some row"
        "equalsIgnoreCase lower (login row) (getLogin (getOwner p))"
        "row = (case firstOwnerByLogin lower (getLogin (getOwner p)) (owners db) of
                  None \<Rightarrow> \<lparr>login = getLogin (getOwner p), endpoint = getEndpoint (getOwner p)\<rparr>
                | Some ex \<Rightarrow> snd ex)"
      by blast
    from link Some have
      l: "linkedGitHubRepositoryID ?i db1 = Some (nextID (gitHubRepositories db))"
        "tbl_get (gitHubRepositories db1) (nextID (gitHubRepositories db)) =
           Some (gitHubRepositoryInfo (fst (ensureOwner lower (getOwner p) (owners db))) p)"
        "owners db1 = snd (ensureOwner lower (getOwner p) (owners db))"
      by simp_all
    define own where "own = \<lparr>getLogin = login row, getEndpoint = endpoint row\<rparr>"
    have a: "getGitHubRepository e =
        Some \<lparr>getName = getName p, getOwner = own,
              getPrivate = getPrivate p, getFork = getFork p, getHTMLURL = getHTMLURL p\<rparr>"
      using e(3) l row(1) by (simp add: gitHubRepositoryInfo_def own_def)
    have b: "own =
        (case firstOwnerByLogin lower (getLogin (getOwner p)) (owners db) of
           None \<Rightarrow> getOwner p
         | Some existingOwner \<Rightarrow>
             \<lparr>getLogin = login (snd existingOwner), getEndpoint = endpoint (snd existingOwner)\<rparr>)"
      using row(3) by (simp add: own_def split: option.splits)
    have c: "equalsIgnoreCase lower (getLogin own) (getLogin (getOwner p))"
      using row(2) by (simp add: own_def)
    from a b c show ?thesis
      unfolding Some option.case
      by (intro exI [of _ "\<lparr>getName = getName p, getOwner = own,
              getPrivate = getPrivate p, getFork = getFork p, getHTMLURL = getHTMLURL p\<rparr>"])
         simp
  qed
  from add list(1,2) e(1,2) remote show ?thesis
    by blast
qed

subsection \<open>Repeated calls of updateGitHubRepository\<close>

lemma updates_linked:
  assumes "wf_database db"
    and "linkedGitHubRepositoryID i db = Some g"
    and "\<forall>c \<in> set calls. truthyID (getID c) = Some i \<and> getGitHubRepository c \<noteq> None"
  shows "\<exists>db'. updateGitHubRepositories lower calls db = (Inr (), db') \<and> wf_database db' \<and>
           linkedGitHubRepositoryID i db' = Some g \<and>
           linkedOwnerID i db' = linkedOwnerID i db \<and>
           owners db' = owners db \<and>
           map fst (rows (repositories db')) = map fst (rows (repositories db)) \<and>
           map_option path (tbl_get (repositories db') i) =
             map_option path (tbl_get (repositories db) i)"
  using assms
proof (induction calls arbitrary: db)
  case Nil
  then show ?case by simp
next
  case (Cons c calls)
  from Cons.prems(3) obtain p where c: "truthyID (getID c) = Some i" "getGitHubRepository c = Some p"
    by auto
  from update_step_linked [OF Cons.prems(1) c Cons.prems(2), where lower = lower] obtain db1 where
    db1: "updateGitHubRepository lower c db = (Inr (), db1)" "wf_database db1"
      "linkedGitHubRepositoryID i db1 = Some g"
      "linkedOwnerID i db1 = linkedOwnerID i db"
      "owners db1 = owners db"
      "map fst (rows (repositories db1)) = map fst (rows (repositories db))"
      "map_option path (tbl_get (repositories db1) i) =
         map_option path (tbl_get (repositories db) i)"
    by auto
  from Cons.prems(3) have rest:
    "\<forall>c \<in> set calls. truthyID (getID c) = Some i \<and> getGitHubRepository c \<noteq> None"
    by simp
  from Cons.IH [OF db1(2,3) rest] db1 show ?case
    by auto
qed

text \<open>
  Claim C3. Let \<open>r\<close> be what \<^verbatim>\<open>addRepository(x)\<close> returned on a well-formed datastore, and
  call \<^verbatim>\<open>updateGitHubRepository\<close> on \<open>r\<close> with the payload \<open>p\<close> and then with each of the
  payloads \<open>ps\<close>, whatever they are. Every call succeeds. The identifiers of the local
  repositories are the same after every call, and the row under \<open>r\<close>'s identifier still
  holds \<open>x\<close>'s path. After the first call the local repository is linked to a
  remote-repository row \<open>g\<close> with owner row \<open>ownr\<close> (the ones created by
  \<^verbatim>\<open>addRepository\<close> if \<open>x\<close> carried remote metadata), and after all the later calls it is
  linked to the same \<open>g\<close> with the same \<open>ownr\<close>, whatever owners the payloads name.
  More generally, in any well-formed datastore \<open>d\<close> in which the local repository is
  linked, whatever was done to the datastore in between, a call on \<open>r\<close> succeeds and keeps
  the local identifiers, the linked remote-repository identifier and its owner.
\<close>

theorem identifier_stability:
  assumes wf: "wf_database db"
    and add: "addRepository lower x db = (Inr r, db1)"
  shows "\<exists>i db2 db3 g ownr.
           getID r = Some i \<and>
           updateGitHubRepository lower (r\<lparr>getGitHubRepository := Some p\<rparr>) db1 = (Inr (), db2) \<and>
           updateGitHubRepositories lower (map (\<lambda>q. r\<lparr>getGitHubRepository := Some q\<rparr>) ps) db2 =
             (Inr (), db3) \<and>
           linkedGitHubRepositoryID i db2 = Some g \<and> linkedGitHubRepositoryID i db3 = Some g \<and>
           linkedOwnerID i db2 = Some ownr \<and> linkedOwnerID i db3 = Some ownr \<and>
           (getGitHubRepository x \<noteq> None \<longrightarrow>
              linkedGitHubRepositoryID i db1 = Some g \<and> linkedOwnerID i db1 = Some ownr) \<and>
           map fst (rows (repositories db2)) = map fst (rows (repositories db1)) \<and>
           map fst (rows (repositories db3)) = map fst (rows (repositories db1)) \<and>
           map_option path (tbl_get (repositories db2) i) = Some (getPath x) \<and>
           map_option path (tbl_get (repositories db3) i) = Some (getPath x) \<and>
           (\<forall>d g' q. wf_database d \<longrightarrow> linkedGitHubRepositoryID i d = Some g' \<longrightarrow>
              (\<exists>d'. updateGitHubRepository lower (r\<lparr>getGitHubRepository := Some q\<rparr>) d = (Inr (), d') \<and>
                 wf_database d' \<and> linkedGitHubRepositoryID i d' = Some g' \<and>
                 linkedOwnerID i d' = linkedOwnerID i d \<and>
                 map fst (rows (repositories d')) = map fst (rows (repositories d))))"
proof -
  let ?i = "nextID (repositories db)"
  let ?call = "\<lambda>q. r\<lparr>getGitHubRepository := Some q\<rparr>"
  from wf have "wf_table (repositories db)" by (simp add: wf_database_def)
  then have i0: "0 < ?i" by (simp add: wf_table_def)
  from addRepository_wf [OF wf, where x = x and lower = lower] add have r: "r = withID ?i x"
    and wf1: "wf_database db1"
    and pth: "map_option path (tbl_get (repositories db1) ?i) = Some (getPath x)"
    and link: "(case getGitHubRepository x of
              None \<Rightarrow> linkedGitHubRepositoryID ?i db1 = None
            | Some p \<Rightarrow>
                linkedGitHubRepositoryID ?i db1 = Some (nextID (gitHubRepositories db)) \<and>
                linkedOwnerID ?i db1 = Some (fst (ensureOwner lower (getOwner p) (owners db))) \<and>
                tbl_get (gitHubRepositories db1) (nextID (gitHubRepositories db)) =
                  Some (gitHubRepositoryInfo (fst (ensureOwner lower (getOwner p) (owners db))) p) \<and>
                owners db1 = snd (ensureOwner lower (getOwner p) (owners db)))"
    by auto
  have id: "getID r = Some ?i" "truthyID (getID (?call q)) = Some ?i"
    "getGitHubRepository (?call q) = Some q" for q
    using i0 by (simp_all add: r withID_def truthyID_def)
  from pth obtain lr where lr: "tbl_get (repositories db1) ?i = Some lr" by auto
  have first: "\<exists>db2 g ownr.
      updateGitHubRepository lower (?call p) db1 = (Inr (), db2) \<and> wf_database db2 \<and>
      linkedGitHubRepositoryID ?i db2 = Some g \<and> linkedOwnerID ?i db2 = Some ownr \<and>
      (getGitHubRepository x \<noteq> None \<longrightarrow>
         linkedGitHubRepositoryID ?i db1 = Some g \<and> linkedOwnerID ?i db1 = Some ownr) \<and>
      map fst (rows (repositories db2)) = map fst (rows (repositories db1)) \<and>
      map_option path (tbl_get (repositories db2) ?i) = Some (getPath x)"
  proof (cases "getGitHubRepository x")
    case None
    with link have un: "linkedGitHubRepositoryID ?i db1 = None" by simp
    from update_step_unlinked [OF wf1 id(2) [of p] id(3) [of p] lr un, where lower = lower] None pth show ?thesis
      by auto
  next
    case (Some p0)
    with link have l: "linkedGitHubRepositoryID ?i db1 = Some (nextID (gitHubRepositories db))"
      by simp
    from update_step_linked [OF wf1 id(2) [of p] id(3) [of p] l, where lower = lower] pth l show ?thesis
      by auto
  qed
  then obtain db2 g ownr where
    db2: "updateGitHubRepository lower (?call p) db1 = (Inr (), db2)" "wf_database db2"
      "linkedGitHubRepositoryID ?i db2 = Some g" "linkedOwnerID ?i db2 = Some ownr"
      "getGitHubRepository x \<noteq> None \<longrightarrow>
         linkedGitHubRepositoryID ?i db1 = Some g \<and> linkedOwnerID ?i db1 = Some ownr"
      "map fst (rows (repositories db2)) = map fst (rows (repositories db1))"
      "map_option path (tbl_get (repositories db2) ?i) = Some (getPath x)"
    by blast
  have calls: "\<forall>c \<in> set (map ?call ps).
      truthyID (getID c) = Some ?i \<and> getGitHubRepository c \<noteq> None"
    using id by auto
  from updates_linked [OF db2(2,3) calls, where lower = lower] obtain db3 where
    db3: "updateGitHubRepositories lower (map ?call ps) db2 = (Inr (), db3)"
      "linkedGitHubRepositoryID ?i db3 = Some g"
      "linkedOwnerID ?i db3 = linkedOwnerID ?i db2"
      "map fst (rows (repositories db3)) = map fst (rows (repositories db2))"
      "map_option path (tbl_get (repositories db3) ?i) =
         map_option path (tbl_get (repositories db2) ?i)"
    by blast
  have anywhere: "\<exists>d'. updateGitHubRepository lower (?call q) d = (Inr (), d') \<and>
      wf_database d' \<and> linkedGitHubRepositoryID ?i d' = Some g' \<and>
      linkedOwnerID ?i d' = linkedOwnerID ?i d \<and>
      map fst (rows (repositories d')) = map fst (rows (repositories d))"
    if "wf_database d" and "linkedGitHubRepositoryID ?i d = Some g'" for d g' q
    using update_step_linked [OF that(1) id(2) [of q] id(3) [of q] that(2), where lower = lower] by auto
  have "getID r = Some ?i \<and>
      updateGitHubRepository lower (?call p) db1 = (Inr (), db2) \<and>
      updateGitHubRepositories lower (map ?call ps) db2 = (Inr (), db3) \<and>
      linkedGitHubRepositoryID ?i db2 = Some g \<and> linkedGitHubRepositoryID ?i db3 = Some g \<and>
      linkedOwnerID ?i db2 = Some ownr \<and> linkedOwnerID ?i db3 = Some ownr \<and>
      (getGitHubRepository x \<noteq> None \<longrightarrow>
         linkedGitHubRepositoryID ?i db1 = Some g \<and> linkedOwnerID ?i db1 = Some ownr) \<and>
      map fst (rows (repositories db2)) = map fst (rows (repositories db1)) \<and>
      map fst (rows (repositories db3)) = map fst (rows (repositories db1)) \<and>
      map_option path (tbl_get (repositories db2) ?i) = Some (getPath x) \<and>
      map_option path (tbl_get (repositories db3) ?i) = Some (getPath x)"
    using id(1) db2 db3 by simp
  with anywhere show ?thesis
    by (intro exI [of _ ?i] exI [of _ db2] exI [of _ db3] exI [of _ g] exI [of _ ownr]) blast
qed

text \<open>
  Claim C4. Two different local repositories of a well-formed datastore, both unlinked,
  are given remote metadata by two calls of \<^verbatim>\<open>updateGitHubRepository\<close> in sequence, the
  owners' logins being equal up to case, that is equal once folded by \<open>lower\<close>, which is
  any folding at all and so the runtime's \<^verbatim>\<open>toLowerCase\<close> in particular (nothing is
  assumed of the endpoints). Both calls
  succeed, two different remote-repository rows result, and both refer to the same owner
  row, whose login equals the given ones up to case. The second call adds no owner row;
  the two calls together add one owner row if no stored owner matched the login and none
  otherwise.
\<close>

theorem owner_reuse:
  assumes wf: "wf_database db"
    and r1: "truthyID (getID r1) = Some i1" "getGitHubRepository r1 = Some p1"
    and r2: "truthyID (getID r2) = Some i2" "getGitHubRepository r2 = Some p2"
    and rows: "tbl_get (repositories db) i1 \<noteq> None" "tbl_get (repositories db) i2 \<noteq> None"
    and unlinked: "linkedGitHubRepositoryID i1 db = None" "linkedGitHubRepositoryID i2 db = None"
    and distinct: "i1 \<noteq> i2"
    and same_login: "equalsIgnoreCase lower (getLogin (getOwner p1)) (getLogin (getOwner p2))"
  shows "\<exists>db1 db2 g1 g2 ownr row.
           updateGitHubRepository lower r1 db = (Inr (), db1) \<and>
           updateGitHubRepository lower r2 db1 = (Inr (), db2) \<and>
           linkedGitHubRepositoryID i1 db2 = Some g1 \<and>
           linkedGitHubRepositoryID i2 db2 = Some g2 \<and> g1 \<noteq> g2 \<and>
           linkedOwnerID i1 db2 = Some ownr \<and> linkedOwnerID i2 db2 = Some ownr \<and>
           tbl_get (owners db2) ownr = Some row \<and>
           equalsIgnoreCase lower (login row) (getLogin (getOwner p1)) \<and>
           owners db2 = owners db1 \<and>
           firstOwnerByLogin lower (getLogin (getOwner p1)) (owners db2) = Some (ownr, row) \<and>
           firstOwnerByLogin lower (getLogin (getOwner p2)) (owners db2) = Some (ownr, row) \<and>
           length (rows (owners db2)) =
             (case firstOwnerByLogin lower (getLogin (getOwner p1)) (owners db) of
                None \<Rightarrow> Suc (length (rows (owners db)))
              | Some existingOwner \<Rightarrow> length (rows (owners db)))"
proof -
  from wf have t: "wf_table (owners db)" "wf_table (gitHubRepositories db)"
    by (simp_all add: wf_database_def)
  let ?g1 = "nextID (gitHubRepositories db)"
  let ?o = "fst (ensureOwner lower (getOwner p1) (owners db))"
  let ?owners = "snd (ensureOwner lower (getOwner p1) (owners db))"
  from rows obtain lr1 lr2 where lr: "tbl_get (repositories db) i1 = Some lr1"
    "tbl_get (repositories db) i2 = Some lr2" by auto
  from update_step_unlinked [OF wf r1 lr(1) unlinked(1), where lower = lower] obtain db1 where
    db1: "updateGitHubRepository lower r1 db = (Inr (), db1)" "wf_database db1"
      "linkedGitHubRepositoryID i1 db1 = Some ?g1"
      "linkedOwnerID i1 db1 = Some ?o"
      "tbl_get (gitHubRepositories db1) ?g1 = Some (gitHubRepositoryInfo ?o p1)"
      "owners db1 = ?owners"
      "\<forall>j. j \<noteq> i1 \<longrightarrow> tbl_get (repositories db1) j = tbl_get (repositories db) j"
    by blast
  have lr2': "tbl_get (repositories db1) i2 = Some lr2"
    using db1(7) distinct lr(2) by simp
  have un2: "linkedGitHubRepositoryID i2 db1 = None"
    using unlinked(2) lr(2) lr2' by (simp add: linkedGitHubRepositoryID_def)
  let ?g2 = "nextID (gitHubRepositories db1)"
  have again: "ensureOwner lower (getOwner p2) ?owners = ensureOwner lower (getOwner p1) (owners db)"
    using t(1) same_login by (rule ensureOwner_again)
  from update_step_unlinked [OF db1(2) r2 lr2' un2, where lower = lower] obtain db2 where
    db2: "updateGitHubRepository lower r2 db1 = (Inr (), db2)"
      "linkedGitHubRepositoryID i2 db2 = Some ?g2"
      "linkedOwnerID i2 db2 = Some (fst (ensureOwner lower (getOwner p2) (owners db1)))"
      "owners db2 = snd (ensureOwner lower (getOwner p2) (owners db1))"
      "\<forall>j. j \<noteq> i2 \<longrightarrow> tbl_get (repositories db2) j = tbl_get (repositories db1) j"
      "\<forall>h. h \<noteq> ?g2 \<longrightarrow> tbl_get (gitHubRepositories db2) h = tbl_get (gitHubRepositories db1) h"
    by blast
  from db1(2) have t1: "wf_table (gitHubRepositories db1)" by (simp add: wf_database_def)
  have ne: "?g1 \<noteq> ?g2"
    using tbl_get_nextID [OF t1] db1(5) by auto
  have same1: "tbl_get (repositories db2) i1 = tbl_get (repositories db1) i1"
    using db2(5) distinct by simp
  have l1: "linkedGitHubRepositoryID i1 db2 = Some ?g1"
    using db1(3) same1 by (simp add: linkedGitHubRepositoryID_def)
  have o1: "linkedOwnerID i1 db2 = Some ?o"
    using db1(4) db1(3) l1 db2(6) ne by (simp add: linkedOwnerID_def)
  have o2: "linkedOwnerID i2 db2 = Some ?o"
    using db2(3) db1(6) again by simp
  have own2: "owners db2 = ?owners"
    using db2(4) db1(6) again by simp
  from ensureOwner_row [OF t(1), where ow = "getOwner p1" and lower = lower] obtain row where
    row: "tbl_get ?owners ?o = Some row" "equalsIgnoreCase lower (login row) (getLogin (getOwner p1))"
    by blast
  have wfo: "wf_table ?owners" using t(1) by (rule wf_table_ensureOwner)
  have f1: "firstOwnerByLogin lower (getLogin (getOwner p1)) ?owners = Some (?o, row)"
  proof (cases "firstOwnerByLogin lower (getLogin (getOwner p1)) (owners db)")
    case None
    let ?new = "\<lparr>login = getLogin (getOwner p1), endpoint = getEndpoint (getOwner p1)\<rparr>"
    have "equalsIgnoreCase lower (login ?new) (getLogin (getOwner p1))"
      by (simp add: equalsIgnoreCase_refl)
    with None have "firstOwnerByLogin lower (getLogin (getOwner p1)) (snd (tbl_add ?new (owners db))) =
        Some (nextID (owners db), ?new)"
      by (rule firstOwnerByLogin_added)
    moreover have "row = ?new"
      using row(1) None t(1) by (simp add: ensureOwner_added tbl_get_add tbl_add_fst)
    ultimately show ?thesis
      using None by (simp add: ensureOwner_added tbl_add_fst)
  next
    case (Some ex)
    with firstOwnerByLogin_Some [OF t(1) Some] row(1) show ?thesis
      by (cases ex) (simp add: ensureOwner_found)
  qed
  have f2: "firstOwnerByLogin lower (getLogin (getOwner p2)) ?owners = Some (?o, row)"
    using f1 firstOwnerByLogin_cong [OF same_login, of ?owners] by simp
  have len: "length (rows ?owners) =
      (case firstOwnerByLogin lower (getLogin (getOwner p1)) (owners db) of
         None \<Rightarrow> Suc (length (rows (owners db)))
       | Some existingOwner \<Rightarrow> length (rows (owners db)))"
    by (simp add: ensureOwner_def tbl_add_def split: option.splits)
  from db1(1) db2(1) l1 db2(2) ne o1 o2 row own2 db1(6) f1 f2 len show ?thesis
    by (intro exI [of _ db1] exI [of _ db2] exI [of _ ?g1] exI [of _ ?g2] exI [of _ ?o]
        exI [of _ row]) simp
qed

subsection \<open>Well-formedness is kept by every operation of the store\<close>

lemma wf_database_transactions [simp]:
  "wf_database (db\<lparr>transactions := ts\<rparr>) = wf_database db"
  by (simp add: wf_database_def)

lemma updateGitHubRepository_keeps_wf:
  assumes wf: "wf_database db"
  shows "wf_database (snd (updateGitHubRepository lower r db))"
proof (cases "truthyID (getID r)")
  case None
  with wf show ?thesis by (simp add: updateGitHubRepository_def)
next
  case (Some i)
  note i = this
  show ?thesis
  proof (cases "getGitHubRepository r")
    case None
    with i wf show ?thesis by (simp add: updateGitHubRepository_def)
  next
    case (Some p)
    note p = this
    show ?thesis
    proof (cases "tbl_get (repositories db) i")
      case None
      with i p wf show ?thesis
        by (simp add: updateGitHubRepository_def transaction_def updateGitHubRepository_scope_def)
    next
      case (Some lr)
      show ?thesis
      proof (cases "linkedGitHubRepositoryID i db")
        case None
        from update_step_unlinked [OF wf i p Some None, where lower = lower] show ?thesis by auto
      next
        case (Some g)
        from update_step_linked [OF wf i p Some, where lower = lower] show ?thesis by auto
      qed
    qed
  qed
qed

lemma addRepository_keeps_wf: "wf_database db \<Longrightarrow> wf_database (snd (addRepository lower x db))"
  using addRepository_wf [where db = db and x = x and lower = lower] by auto

lemma getRepositories_keeps_wf: "wf_database db \<Longrightarrow> wf_database (snd (getRepositories db))"
  by (simp add: getRepositories_def transaction_def Let_def split: sum.splits)

subsection \<open>Fatal failures of updateGitHubRepository\<close>

lemma isFatal_simps [simp]:
  "isFatal (Inl (FatalError m))" "\<not> isFatal (Inl TypeError)" "\<not> isFatal (Inl (GitError m))"
  "\<not> isFatal (Inr v)"
  by (simp_all add: isFatal_def)

lemma updateGitHubRepository_no_id:
  "truthyID (getID r) = None \<Longrightarrow>
   updateGitHubRepository lower r db =
     (Inl (FatalError
        ''`updateGitHubRepository` can only update a GitHub repository for a repository which has been added to the database.''),
      db)"
  by (simp add: updateGitHubRepository_def)

lemma updateGitHubRepository_no_payload:
  "truthyID (getID r) = Some i \<Longrightarrow> getGitHubRepository r = None \<Longrightarrow>
   updateGitHubRepository lower r db =
     (Inl (FatalError
        ''`updateGitHubRepository` can only update a GitHub repository. It cannot remove one.''),
      db)"
  by (simp add: updateGitHubRepository_def)

lemma updateGitHubRepository_transaction:
  assumes "truthyID (getID r) = Some i" and "getGitHubRepository r = Some p"
  shows "transactions (snd (updateGitHubRepository lower r db)) =
           transactions db @ [(ReadWrite, [Repositories, GitHubRepositories, Owners])]"
    and "isFatal (fst (updateGitHubRepository lower r db)) \<longleftrightarrow>
           (\<exists>lr g. tbl_get (repositories db) i = Some lr \<and>
              truthyID (gitHubRepositoryID lr) = Some g \<and>
              tbl_get (gitHubRepositories db) g = None)"
  using assms
  by (auto simp: updateGitHubRepository_def transaction_def updateGitHubRepository_scope_def
      resolveOwner_def Let_def tbl_put_def tbl_add_def tbl_update_def
      split: option.splits sum.splits prod.splits)

lemma wf_database_no_dangling:
  "wf_database db \<Longrightarrow> tbl_get (repositories db) i = Some lr \<Longrightarrow>
   truthyID (gitHubRepositoryID lr) = Some g \<Longrightarrow> tbl_get (gitHubRepositories db) g \<noteq> None"
  unfolding wf_database_def by blast

text \<open>
  Claim C9, as amended. \<^verbatim>\<open>updateGitHubRepository\<close> fails through \<^verbatim>\<open>fatalError\<close> exactly
  when its input has no identifier (absent, or 0, which the test \<^verbatim>\<open>!repoID\<close> takes for
  absent), or carries no remote payload, or the local row under the identifier refers to
  a remote-repository row that does not exist. In the first two cases the datastore is
  left as it is and no transaction is opened; in every other case one transaction is
  opened. On a well-formed datastore the third case cannot arise, and the call fails
  fatally exactly when the identifier or the payload is missing.
\<close>

theorem updateGitHubRepository_fatal:
  "(isFatal (fst (updateGitHubRepository lower r db)) \<longleftrightarrow>
      truthyID (getID r) = None \<or> getGitHubRepository r = None \<or>
      (\<exists>i lr g. truthyID (getID r) = Some i \<and> tbl_get (repositories db) i = Some lr \<and>
         truthyID (gitHubRepositoryID lr) = Some g \<and>
         tbl_get (gitHubRepositories db) g = None)) \<and>
   (truthyID (getID r) = None \<or> getGitHubRepository r = None \<longrightarrow>
      snd (updateGitHubRepository lower r db) = db) \<and>
   (truthyID (getID r) \<noteq> None \<and> getGitHubRepository r \<noteq> None \<longrightarrow>
      transactions (snd (updateGitHubRepository lower r db)) =
        transactions db @ [(ReadWrite, [Repositories, GitHubRepositories, Owners])]) \<and>
   (wf_database db \<longrightarrow>
      (isFatal (fst (updateGitHubRepository lower r db)) \<longleftrightarrow>
         truthyID (getID r) = None \<or> getGitHubRepository r = None))"
proof (cases "truthyID (getID r)")
  case None
  then show ?thesis
    by (simp add: updateGitHubRepository_no_id)
next
  case (Some i)
  show ?thesis
  proof (cases "getGitHubRepository r")
    case None
    with Some show ?thesis
      by (simp add: updateGitHubRepository_no_payload)
  next
    case (Some p)
    note tx = updateGitHubRepository_transaction [OF \<open>truthyID (getID r) = Some i\<close> Some, where db = db and lower = lower]
    have "\<not> isFatal (fst (updateGitHubRepository lower r db))" if "wf_database db"
      using tx(2) wf_database_no_dangling [OF that] by blast
    with tx Some \<open>truthyID (getID r) = Some i\<close> show ?thesis
      by auto
  qed
qed

subsection \<open>The example datastores\<close>

lemma toLowerCase_Octocat: "toLowerCase ''Octocat'' = ''octocat''"
  by code_simp

lemma toLowerCase_octocat: "toLowerCase ''octocat'' = ''octocat''"
  by code_simp

lemma toLowerCase_Ecole: "toLowerCase (CHR 0xC9 # ''cole'') = CHR 0xE9 # ''cole''"
  by code_simp

lemma toLowerCase_ecole: "toLowerCase (CHR 0xE9 # ''cole'') = CHR 0xE9 # ''cole''"
  by code_simp

lemmas store_defs = addRepository_def updateGitHubRepository_def transaction_def
  updateGitHubRepository_scope_def resolveOwner_def ensureOwner_def firstOwnerByLogin_def
  gitHubRepositoryInfo_def tbl_get_def tbl_add_def tbl_put_def tbl_update_def truthyID_def
  equalsIgnoreCase_def toLowerCase_Octocat toLowerCase_octocat withID_def Let_def
  getRepositories_def inflate_def toArray_def

lemmas catalog_example_defs = octocat_remote_def enterprise_remote_def octocat_repo_def
  enterprise_repo_def bare_repo_def other_bare_repo_def empty_database_def empty_table_def

lemma wf_empty_database: "wf_database empty_database"
  by (simp add: wf_database_def wf_table_def empty_database_def empty_table_def tbl_get_def)

lemma octocat_database_eq:
  "octocat_database =
     \<lparr>repositories =
        \<lparr>rows = [(1, \<lparr>path = ''/some/cool/path'', gitHubRepositoryID = Some 1\<rparr>)], nextID = 2\<rparr>,
      gitHubRepositories =
        \<lparr>rows = [(1, \<lparr>ownerID = 1, name = ''hello-world'', isPrivate = False, fork = False,
                      htmlURL = ''https://github.com/Octocat/hello-world''\<rparr>)],
         nextID = 2\<rparr>,
      owners =
        \<lparr>rows = [(1, \<lparr>login = ''Octocat'', endpoint = ''https://api.github.com''\<rparr>)],
         nextID = 2\<rparr>,
      transactions =
        [(ReadWrite, [Repositories]), (ReadWrite, [Repositories, GitHubRepositories, Owners])]\<rparr>"
  by (simp add: octocat_database_def store_defs catalog_example_defs)

lemma wf_octocat_database: "wf_database octocat_database"
  using addRepository_wf [OF wf_empty_database, where x = octocat_repo and lower = toLowerCase]
  by (auto simp: octocat_database_def)

lemma ecole_database_eq:
  "ecole_database =
     \<lparr>repositories =
        \<lparr>rows = [(1, \<lparr>path = ''/ecole/cours'', gitHubRepositoryID = Some 1\<rparr>)], nextID = 2\<rparr>,
      gitHubRepositories =
        \<lparr>rows = [(1, \<lparr>ownerID = 1, name = ''cours'', isPrivate = False, fork = False,
                      htmlURL = ''https://github.com/ecole/cours''\<rparr>)],
         nextID = 2\<rparr>,
      owners =
        \<lparr>rows = [(1, \<lparr>login = CHR 0xC9 # ''cole'', endpoint = ''https://api.github.com''\<rparr>)],
         nextID = 2\<rparr>,
      transactions =
        [(ReadWrite, [Repositories]), (ReadWrite, [Repositories, GitHubRepositories, Owners])]\<rparr>"
  by (simp add: ecole_database_def ecole_repo_def ecole_remote_def store_defs
      catalog_example_defs)

lemma wf_ecole_database: "wf_database ecole_database"
  using addRepository_wf [OF wf_empty_database, where x = ecole_repo and lower = toLowerCase]
  by (auto simp: ecole_database_def)

lemma two_bare_database_eq:
  "two_bare_database =
     \<lparr>repositories =
        \<lparr>rows = [(1, \<lparr>path = ''/some/cool/path'', gitHubRepositoryID = None\<rparr>),
                 (2, \<lparr>path = ''/work/spoon-knife'', gitHubRepositoryID = None\<rparr>)],
         nextID = 3\<rparr>,
      gitHubRepositories = \<lparr>rows = [], nextID = 1\<rparr>,
      owners = \<lparr>rows = [], nextID = 1\<rparr>,
      transactions = [(ReadWrite, [Repositories]), (ReadWrite, [Repositories])]\<rparr>"
  by (simp add: two_bare_database_def store_defs catalog_example_defs)

lemma wf_two_bare_database: "wf_database two_bare_database"
proof -
  from addRepository_wf [OF wf_empty_database, where x = bare_repo and lower = toLowerCase]
  have "wf_database (snd (addRepository toLowerCase bare_repo empty_database))" by auto
  from addRepository_wf [OF this, where x = other_bare_repo and lower = toLowerCase] show ?thesis
    by (auto simp: two_bare_database_def)
qed

text \<open>
  Claim C5 as stated fails on the owner fields. The datastore holds the owner
  \<^verbatim>\<open>Octocat\<close> at \<^verbatim>\<open>https://api.github.com\<close>; a repository whose owner is \<^verbatim>\<open>octocat\<close> at
  an Enterprise endpoint is added. Listing returns it with the stored owner's login and
  endpoint, not its own.
\<close>

theorem addRepository_round_trip_owner_mismatch:
  "getGitHubRepository enterprise_repo =
     Some \<lparr>getName = ''spoon-knife'',
           getOwner = \<lparr>getLogin = ''octocat'', getEndpoint = ''https://ghe.example.com/api/v3''\<rparr>,
           getPrivate = True, getFork = True,
           getHTMLURL = ''https://ghe.example.com/octocat/spoon-knife''\<rparr> \<and>
   fst (getRepositories (snd (addRepository toLowerCase enterprise_repo octocat_database))) =
     Inr [\<lparr>getPath = ''/some/cool/path'',
           getGitHubRepository = Some
             \<lparr>getName = ''hello-world'',
              getOwner = \<lparr>getLogin = ''Octocat'', getEndpoint = ''https://api.github.com''\<rparr>,
              getPrivate = False, getFork = False,
              getHTMLURL = ''https://github.com/Octocat/hello-world''\<rparr>,
           getID = Some 1\<rparr>,
          \<lparr>getPath = ''/work/spoon-knife'',
           getGitHubRepository = Some
             \<lparr>getName = ''spoon-knife'',
              getOwner = \<lparr>getLogin = ''Octocat'', getEndpoint = ''https://api.github.com''\<rparr>,
              getPrivate = True, getFork = True,
              getHTMLURL = ''https://ghe.example.com/octocat/spoon-knife''\<rparr>,
           getID = Some 2\<rparr>]"
  by (simp add: octocat_database_eq store_defs catalog_example_defs)

text \<open>
  Claim C9 as stated fails in one direction. The input has an identifier and a remote
  payload, the local row refers to a remote-repository row that does not exist, and the
  call fails through \<^verbatim>\<open>fatalError\<close>, inside the transaction it has opened.
\<close>

theorem updateGitHubRepository_fatal_dangling:
  "getID (withID 1 octocat_repo) = Some 1 \<and>
   getGitHubRepository (withID 1 octocat_repo) = Some octocat_remote \<and>
   updateGitHubRepository toLowerCase (withID 1 octocat_repo) dangling_database =
     (Inl (FatalError ''Couldn't look up an existing GitHub repository.''),
      dangling_database\<lparr>transactions := [(ReadWrite, [Repositories, GitHubRepositories, Owners])]\<rparr>)"
  by (simp add: dangling_database_def store_defs octocat_repo_def empty_table_def)

theorem addRepository_round_trip_witness:
  "(\<exists>db1 rs db2 e.
      addRepository toLowerCase enterprise_repo octocat_database =
        (Inr (withID 2 enterprise_repo), db1) \<and>
      getRepositories db1 = (Inr rs, db2) \<and> e \<in> set rs \<and>
      getPath e = ''/work/spoon-knife'' \<and> getID e = Some 2 \<and>
      (\<exists>p'. getGitHubRepository e = Some p' \<and> getName p' = ''spoon-knife'' \<and>
         getPrivate p' \<and> getFork p' \<and>
         getHTMLURL p' = ''https://ghe.example.com/octocat/spoon-knife'' \<and>
         getOwner p' = \<lparr>getLogin = ''Octocat'', getEndpoint = ''https://api.github.com''\<rparr>)) \<and>
   (\<exists>db1 rs db2 e.
      addRepository toLowerCase ecole_lower_repo ecole_database =
        (Inr (withID 2 ecole_lower_repo), db1) \<and>
      getRepositories db1 = (Inr rs, db2) \<and> e \<in> set rs \<and>
      getPath e = ''/ecole/notes'' \<and> getID e = Some 2 \<and>
      (\<exists>p'. getGitHubRepository e = Some p' \<and> getName p' = ''notes'' \<and>
         getOwner p' =
           \<lparr>getLogin = CHR 0xC9 # ''cole'', getEndpoint = ''https://api.github.com''\<rparr>))"
proof -
  have own: "firstOwnerByLogin toLowerCase ''octocat'' (owners octocat_database) =
      Some (1, \<lparr>login = ''Octocat'', endpoint = ''https://api.github.com''\<rparr>)"
    by (simp add: octocat_database_eq firstOwnerByLogin_def equalsIgnoreCase_def
        toLowerCase_Octocat toLowerCase_octocat)
  have n: "nextID (repositories octocat_database) = 2"
    by (simp add: octocat_database_eq)
  have ascii: "\<exists>db1 rs db2 e.
      addRepository toLowerCase enterprise_repo octocat_database =
        (Inr (withID 2 enterprise_repo), db1) \<and>
      getRepositories db1 = (Inr rs, db2) \<and> e \<in> set rs \<and>
      getPath e = ''/work/spoon-knife'' \<and> getID e = Some 2 \<and>
      (\<exists>p'. getGitHubRepository e = Some p' \<and> getName p' = ''spoon-knife'' \<and>
         getPrivate p' \<and> getFork p' \<and>
         getHTMLURL p' = ''https://ghe.example.com/octocat/spoon-knife'' \<and>
         getOwner p' = \<lparr>getLogin = ''Octocat'', getEndpoint = ''https://api.github.com''\<rparr>)"
    using addRepository_round_trip [OF wf_octocat_database, where x = enterprise_repo
        and lower = toLowerCase]
    unfolding n by (simp add: enterprise_repo_def enterprise_remote_def own) blast
  have own': "firstOwnerByLogin toLowerCase (CHR 0xE9 # ''cole'') (owners ecole_database) =
      Some (1, \<lparr>login = CHR 0xC9 # ''cole'', endpoint = ''https://api.github.com''\<rparr>)"
    by (simp add: ecole_database_eq firstOwnerByLogin_def equalsIgnoreCase_def
        toLowerCase_Ecole toLowerCase_ecole)
  have n': "nextID (repositories ecole_database) = 2"
    by (simp add: ecole_database_eq)
  have beyond: "\<exists>db1 rs db2 e.
      addRepository toLowerCase ecole_lower_repo ecole_database =
        (Inr (withID 2 ecole_lower_repo), db1) \<and>
      getRepositories db1 = (Inr rs, db2) \<and> e \<in> set rs \<and>
      getPath e = ''/ecole/notes'' \<and> getID e = Some 2 \<and>
      (\<exists>p'. getGitHubRepository e = Some p' \<and> getName p' = ''notes'' \<and>
         getOwner p' =
           \<lparr>getLogin = CHR 0xC9 # ''cole'', getEndpoint = ''https://api.github.com''\<rparr>)"
    using addRepository_round_trip [OF wf_ecole_database, where x = ecole_lower_repo
        and lower = toLowerCase]
    unfolding n' by (simp add: ecole_lower_repo_def ecole_lower_remote_def own') blast
  from ascii beyond show ?thesis by blast
qed

theorem identifier_stability_witness:
  "linkedGitHubRepositoryID 1 octocat_database = Some 1 \<and>
   linkedOwnerID 1 octocat_database = Some 1 \<and>
   (\<exists>db2 db3.
      updateGitHubRepository toLowerCase ((withID 1 octocat_repo)\<lparr>getGitHubRepository := Some enterprise_remote\<rparr>)
        octocat_database = (Inr (), db2) \<and>
      updateGitHubRepositories toLowerCase
        (map (\<lambda>q. (withID 1 octocat_repo)\<lparr>getGitHubRepository := Some q\<rparr>)
           [octocat_remote, enterprise_remote]) db2 = (Inr (), db3) \<and>
      linkedGitHubRepositoryID 1 db2 = Some 1 \<and> linkedGitHubRepositoryID 1 db3 = Some 1 \<and>
      linkedOwnerID 1 db2 = Some 1 \<and> linkedOwnerID 1 db3 = Some 1 \<and>
      map fst (rows (repositories db3)) = [1] \<and>
      map_option path (tbl_get (repositories db3) 1) = Some ''/some/cool/path'')"
proof -
  have add: "addRepository toLowerCase octocat_repo empty_database = (Inr (withID 1 octocat_repo), octocat_database)"
    using addRepository_wf [OF wf_empty_database, where x = octocat_repo and lower = toLowerCase]
    by (auto simp: octocat_database_def empty_database_def empty_table_def)
  have l: "linkedGitHubRepositoryID 1 octocat_database = Some 1"
    "linkedOwnerID 1 octocat_database = Some 1"
    by (simp_all add: octocat_database_eq linkedOwnerID_def linkedGitHubRepositoryID_def
        tbl_get_def truthyID_def)
  have x: "getGitHubRepository octocat_repo \<noteq> None" "getPath octocat_repo = ''/some/cool/path''"
    "getID (withID 1 octocat_repo) = Some 1"
    "map fst (rows (repositories octocat_database)) = [1]"
    by (simp_all add: octocat_repo_def withID_def octocat_database_eq)
  from identifier_stability [OF wf_empty_database add, where p = enterprise_remote
      and ps = "[octocat_remote, enterprise_remote]"] l x
  show ?thesis
    by auto
qed

theorem owner_reuse_witness:
  "equalsIgnoreCase toLowerCase ''Octocat'' ''octocat'' \<and>
   (\<exists>db1 db2 ownr.
      updateGitHubRepository toLowerCase (withID 1 octocat_repo) two_bare_database = (Inr (), db1) \<and>
      updateGitHubRepository toLowerCase (withID 2 enterprise_repo) db1 = (Inr (), db2) \<and>
      linkedOwnerID 1 db2 = Some ownr \<and> linkedOwnerID 2 db2 = Some ownr \<and>
      length (rows (owners db2)) = 1) \<and>
   equalsIgnoreCase toLowerCase (CHR 0xC9 # ''cole'') (CHR 0xE9 # ''cole'') \<and>
   (\<exists>db1 db2 ownr.
      updateGitHubRepository toLowerCase
        ((withID 1 bare_repo)\<lparr>getGitHubRepository := Some ecole_remote\<rparr>) two_bare_database =
        (Inr (), db1) \<and>
      updateGitHubRepository toLowerCase
        ((withID 2 other_bare_repo)\<lparr>getGitHubRepository := Some ecole_lower_remote\<rparr>) db1 =
        (Inr (), db2) \<and>
      linkedOwnerID 1 db2 = Some ownr \<and> linkedOwnerID 2 db2 = Some ownr \<and>
      length (rows (owners db2)) = 1)"
proof -
  have rows: "tbl_get (repositories two_bare_database) 1 \<noteq> None"
    "tbl_get (repositories two_bare_database) 2 \<noteq> None"
    by (simp_all add: two_bare_database_eq tbl_get_def)
  have un: "linkedGitHubRepositoryID 1 two_bare_database = None"
    "linkedGitHubRepositoryID 2 two_bare_database = None"
    by (simp_all add: two_bare_database_eq linkedGitHubRepositoryID_def tbl_get_def truthyID_def)
  have ne: "(1::nat) \<noteq> 2" by simp
  have none: "firstOwnerByLogin toLowerCase l (owners two_bare_database) = None"
    "length (rows (owners two_bare_database)) = 0" for l
    by (simp_all add: two_bare_database_eq firstOwnerByLogin_def)
  have r1: "truthyID (getID (withID 1 octocat_repo)) = Some 1"
    "getGitHubRepository (withID 1 octocat_repo) = Some octocat_remote"
    by (simp_all add: withID_def truthyID_def octocat_repo_def)
  have r2: "truthyID (getID (withID 2 enterprise_repo)) = Some 2"
    "getGitHubRepository (withID 2 enterprise_repo) = Some enterprise_remote"
    by (simp_all add: withID_def truthyID_def enterprise_repo_def)
  have same: "equalsIgnoreCase toLowerCase (getLogin (getOwner octocat_remote))
      (getLogin (getOwner enterprise_remote))"
    by (simp add: octocat_remote_def enterprise_remote_def equalsIgnoreCase_def
        toLowerCase_Octocat toLowerCase_octocat)
  have ascii: "equalsIgnoreCase toLowerCase ''Octocat'' ''octocat'' \<and>
   (\<exists>db1 db2 ownr.
      updateGitHubRepository toLowerCase (withID 1 octocat_repo) two_bare_database = (Inr (), db1) \<and>
      updateGitHubRepository toLowerCase (withID 2 enterprise_repo) db1 = (Inr (), db2) \<and>
      linkedOwnerID 1 db2 = Some ownr \<and> linkedOwnerID 2 db2 = Some ownr \<and>
      length (rows (owners db2)) = 1)"
    using owner_reuse [OF wf_two_bare_database r1 r2 rows un ne same] none same
    by (auto simp: octocat_remote_def enterprise_remote_def)
  have e1: "truthyID (getID ((withID 1 bare_repo)\<lparr>getGitHubRepository := Some ecole_remote\<rparr>)) =
      Some 1"
    "getGitHubRepository ((withID 1 bare_repo)\<lparr>getGitHubRepository := Some ecole_remote\<rparr>) =
      Some ecole_remote"
    by (simp_all add: withID_def truthyID_def)
  have e2: "truthyID (getID ((withID 2 other_bare_repo)
        \<lparr>getGitHubRepository := Some ecole_lower_remote\<rparr>)) = Some 2"
    "getGitHubRepository ((withID 2 other_bare_repo)
        \<lparr>getGitHubRepository := Some ecole_lower_remote\<rparr>) = Some ecole_lower_remote"
    by (simp_all add: withID_def truthyID_def)
  have same': "equalsIgnoreCase toLowerCase (getLogin (getOwner ecole_remote))
      (getLogin (getOwner ecole_lower_remote))"
    by (simp add: ecole_remote_def ecole_lower_remote_def equalsIgnoreCase_def
        toLowerCase_Ecole toLowerCase_ecole)
  have beyond: "equalsIgnoreCase toLowerCase (CHR 0xC9 # ''cole'') (CHR 0xE9 # ''cole'') \<and>
   (\<exists>db1 db2 ownr.
      updateGitHubRepository toLowerCase
        ((withID 1 bare_repo)\<lparr>getGitHubRepository := Some ecole_remote\<rparr>) two_bare_database =
        (Inr (), db1) \<and>
      updateGitHubRepository toLowerCase
        ((withID 2 other_bare_repo)\<lparr>getGitHubRepository := Some ecole_lower_remote\<rparr>) db1 =
        (Inr (), db2) \<and>
      linkedOwnerID 1 db2 = Some ownr \<and> linkedOwnerID 2 db2 = Some ownr \<and>
      length (rows (owners db2)) = 1)"
    using owner_reuse [OF wf_two_bare_database e1 e2 rows un ne same'] none same'
    by (auto simp: ecole_remote_def ecole_lower_remote_def)
  from ascii beyond show ?thesis by blast
qed

theorem updateGitHubRepository_fatal_witness:
  "isFatal (fst (updateGitHubRepository toLowerCase bare_repo empty_database)) \<and>
   snd (updateGitHubRepository toLowerCase bare_repo empty_database) = empty_database \<and>
   isFatal (fst (updateGitHubRepository toLowerCase (withID 1 bare_repo) octocat_database)) \<and>
   snd (updateGitHubRepository toLowerCase (withID 1 bare_repo) octocat_database) = octocat_database \<and>
   \<not> isFatal (fst (updateGitHubRepository toLowerCase (withID 1 enterprise_repo) octocat_database)) \<and>
   transactions (snd (updateGitHubRepository toLowerCase (withID 1 enterprise_repo) octocat_database)) =
     transactions octocat_database @ [(ReadWrite, [Repositories, GitHubRepositories, Owners])]"
proof -
  have a: "truthyID (getID bare_repo) = None" "getGitHubRepository (withID 1 bare_repo) = None"
    "truthyID (getID (withID 1 enterprise_repo)) \<noteq> None"
    "getGitHubRepository (withID 1 enterprise_repo) \<noteq> None"
    by (simp_all add: bare_repo_def enterprise_repo_def withID_def truthyID_def)
  from updateGitHubRepository_fatal [where r = bare_repo and db = empty_database and lower = toLowerCase] a(1)
  have c1: "isFatal (fst (updateGitHubRepository toLowerCase bare_repo empty_database)) \<and>
      snd (updateGitHubRepository toLowerCase bare_repo empty_database) = empty_database"
    by blast
  from updateGitHubRepository_fatal [where r = "withID 1 bare_repo" and db = octocat_database and lower = toLowerCase] a(2)
  have c2: "isFatal (fst (updateGitHubRepository toLowerCase (withID 1 bare_repo) octocat_database)) \<and>
      snd (updateGitHubRepository toLowerCase (withID 1 bare_repo) octocat_database) = octocat_database"
    by blast
  from updateGitHubRepository_fatal [where r = "withID 1 enterprise_repo" and db = octocat_database and lower = toLowerCase] a(3,4)
    wf_octocat_database
  have c3: "\<not> isFatal (fst (updateGitHubRepository toLowerCase (withID 1 enterprise_repo) octocat_database)) \<and>
      transactions (snd (updateGitHubRepository toLowerCase (withID 1 enterprise_repo) octocat_database)) =
        transactions octocat_database @ [(ReadWrite, [Repositories, GitHubRepositories, Owners])]"
    by blast
  from c1 c2 c3 show ?thesis by blast
qed

end
